theory Spec2Isabelle
  imports Main
begin

section \<open>JavaScript strings\<close>

text \<open>
  A JavaScript string is a sequence of UTF-16 code units; it is modelled as the list of
  its code units, so that \<open>length\<close> is the \<^verbatim>\<open>.length\<close> property and the character
  classes of the regular expressions are sets of code units. \<open>js\<close> turns an ASCII
  literal into such a string.
\<close>

type_synonym jsstring = "nat list"

definition js :: "string \<Rightarrow> jsstring" where
  "js s = map of_char s"

text \<open>
  The class \<^verbatim>\<open>\w\<close> of a regular expression without the \<^verbatim>\<open>u\<close> and \<^verbatim>\<open>i\<close> flags:
  \<^verbatim>\<open>[A-Za-z0-9_]\<close>.
\<close>

definition is_word :: "nat \<Rightarrow> bool" where
  "is_word c \<longleftrightarrow> (48 \<le> c \<and> c \<le> 57) \<or> (65 \<le> c \<and> c \<le> 90) \<or> c = 95 \<or> (97 \<le> c \<and> c \<le> 122)"

text \<open>
  The class \<^verbatim>\<open>\s\<close>: tab, line feed, vertical tab, form feed, carriage return, space,
  no-break space, the Unicode space separators, the line and paragraph separators and the
  byte order mark.
\<close>

definition is_space :: "nat \<Rightarrow> bool" where
  "is_space c \<longleftrightarrow> (9 \<le> c \<and> c \<le> 13) \<or> c = 32 \<or> c = 160 \<or> c = 5760 \<or>
     (8192 \<le> c \<and> c \<le> 8202) \<or> c = 8232 \<or> c = 8233 \<or> c = 8239 \<or> c = 8287 \<or>
     c = 12288 \<or> c = 65279"

text \<open>
  \<^verbatim>\<open>s.split(sep)\<close> for a separator of one code unit: the list of the segments between
  the separators, never empty.
\<close>

fun split_on :: "nat \<Rightarrow> jsstring \<Rightarrow> jsstring list" where
  "split_on sep [] = [[]]"
| "split_on sep (c # cs) =
     (if c = sep then [] # split_on sep cs
      else (case split_on sep cs of
              [] \<Rightarrow> [[c]]
            | seg # segs \<Rightarrow> (c # seg) # segs))"

text \<open>\<^verbatim>\<open>s.replace(/[^\w\s]/g, "")\<close>: every code unit outside both classes is dropped.\<close>

definition strip_non_word :: "jsstring \<Rightarrow> jsstring" where
  "strip_non_word s = filter (\<lambda>c. is_word c \<or> is_space c) s"

text \<open>
  \<^verbatim>\<open>s.replace(/\s+/g, "_")\<close>: every maximal run of whitespace becomes one underscore.
\<close>

function underscore_spaces :: "jsstring \<Rightarrow> jsstring" where
  "underscore_spaces [] = []"
| "underscore_spaces (c # cs) =
     (if is_space c then 95 # underscore_spaces (dropWhile is_space cs)
      else c # underscore_spaces cs)"
  by pat_completeness auto
termination
  by (relation "measure length") (auto simp: less_Suc_eq_le length_dropWhile_le)

text \<open>
  \<^verbatim>\<open>s.toLowerCase()\<close> on the code units that can reach it in \<open>documind\<close>: after the
  two replacements only \<^verbatim>\<open>[A-Za-z0-9_]\<close> is left (lemma \<open>underscore_spaces_word\<close>),
  and there lower-casing is the ASCII one.
\<close>

definition to_lower_unit :: "nat \<Rightarrow> nat" where
  "to_lower_unit c = (if 65 \<le> c \<and> c \<le> 90 then c + 32 else c)"

definition toLowerCase :: "jsstring \<Rightarrow> jsstring" where
  "toLowerCase s = map to_lower_unit s"

text \<open>\<^verbatim>\<open>s.substring(0, n)\<close>.\<close>

definition substring0 :: "nat \<Rightarrow> jsstring \<Rightarrow> jsstring" where
  "substring0 n s = take n s"

text \<open>\<^verbatim>\<open>s.endsWith(t)\<close>.\<close>

definition endsWith :: "jsstring \<Rightarrow> jsstring \<Rightarrow> bool" where
  "endsWith s t \<longleftrightarrow> length t \<le> length s \<and> drop (length s - length t) s = t"

text \<open>\<^verbatim>\<open>xs.join(sep)\<close>.\<close>

fun join :: "jsstring \<Rightarrow> jsstring list \<Rightarrow> jsstring" where
  "join sep [] = []"
| "join sep [x] = x"
| "join sep (x # y # ys) = x @ sep @ join sep (y # ys)"

section \<open>JavaScript numbers\<close>

text \<open>
  A JavaScript number is an IEEE 754 double. The token counts are whole numbers, so a
  number is modelled as a double with an integer value, an infinity or \<^verbatim>\<open>NaN\<close>; a
  count with a fraction is outside this model.

  \<open>round53\<close> rounds a natural number to the nearest one with 53 significant bits, a
  tie going to the even significand; \<open>to_number\<close> is the double nearest to an integer,
  an infinity from \<open>2\<^sup>1\<^sup>0\<^sup>2\<^sup>4\<close> on; and \<open>js_add\<close> is \<^verbatim>\<open>+\<close> on numbers: the
  exact sum of two doubles, rounded.
\<close>

datatype jsnumber = Num int | PlusInfinity | MinusInfinity | NaN

fun bit_length :: "nat \<Rightarrow> nat" where
  "bit_length 0 = 0"
| "bit_length (Suc n) = Suc (bit_length (Suc n div 2))"

definition round53 :: "nat \<Rightarrow> nat" where
  "round53 m =
     (let u = 2 ^ (bit_length m - 53); q = m div u; r = m mod u
      in if 2 * r < u then q * u
         else if u < 2 * r then (q + 1) * u
         else if even q then q * u
         else (q + 1) * u)"

definition to_number :: "int \<Rightarrow> jsnumber" where
  "to_number s =
     (let m = round53 (nat \<bar>s\<bar>)
      in if 2 ^ 1024 \<le> m then (if s < 0 then MinusInfinity else PlusInfinity)
         else Num (if s < 0 then - int m else int m))"

fun js_add :: "jsnumber \<Rightarrow> jsnumber \<Rightarrow> jsnumber" where
  "js_add (Num a) (Num b) = to_number (a + b)"
| "js_add NaN y = NaN"
| "js_add x NaN = NaN"
| "js_add PlusInfinity MinusInfinity = NaN"
| "js_add MinusInfinity PlusInfinity = NaN"
| "js_add PlusInfinity y = PlusInfinity"
| "js_add x PlusInfinity = PlusInfinity"
| "js_add MinusInfinity y = MinusInfinity"
| "js_add x MinusInfinity = MinusInfinity"

section \<open>The file name of the output\<close>

text \<open>
  Lines 92 to 98 of \<^verbatim>\<open>index.ts\<close>: the last segment of the local path, cut at its first
  dot, stripped, underscored, lower-cased and truncated.
\<close>

definition endOfPath :: "jsstring \<Rightarrow> jsstring" where
  "endOfPath localPath = last (split_on 47 localPath)"

definition rawFileName :: "jsstring \<Rightarrow> jsstring" where
  "rawFileName localPath = hd (split_on 46 (endOfPath localPath))"

definition fileName_of :: "jsstring \<Rightarrow> jsstring" where
  "fileName_of localPath =
     substring0 255 (toLowerCase (underscore_spaces (strip_non_word (rawFileName localPath))))"


section \<open>Data model\<close>

text \<open>
  The interfaces of \<^verbatim>\<open>types.ts\<close>. An optional field is an \<open>option\<close>, \<open>None\<close> when
  the caller leaves it out. Token counts are JavaScript numbers; page numbers are
  integers. The type \<open>'p\<close>
  stands for the \<^verbatim>\<open>LLMParams\<close> object, which \<open>documind\<close> only hands on.
\<close>

datatype ModelOptions = gpt_o3_mini | gpt_4o | gpt_4o_mini | llava | llama3_2_vision

text \<open>\<^verbatim>\<open>number | number[]\<close>, the type of \<^verbatim>\<open>pagesToConvertAsImages\<close>.\<close>

datatype PagesArg = PageNumber int | PageList "int list"

record 'p DocumindArgs =
  cleanup :: "bool option"
  concurrency :: "int option"
  filePath :: jsstring
  llmParams :: "'p option"
  maintainFormat :: "bool option"
  model :: "ModelOptions option"
  openaiAPIKey :: "jsstring option"
  outputDir :: "jsstring option"
  pagesToConvertAsImages :: "PagesArg option"
  tempDir :: "jsstring option"

record CompletionResponse =
  content :: jsstring
  inputTokens :: jsnumber
  outputTokens :: jsnumber

record 'p CompletionArgs =
  apiKey :: jsstring
  imagePath :: jsstring
  llmParams :: 'p
  maintainFormat :: bool
  model :: ModelOptions
  priorPage :: jsstring

text \<open>
  A page of the output. \<open>page\<close> is \<open>None\<close> where the JavaScript value is
  \<^verbatim>\<open>undefined\<close> (an array read past its end).
\<close>

record Page =
  content :: jsstring
  contentLength :: nat
  page :: "int option"

record DocumindOutput =
  completionTime :: int
  fileName :: jsstring
  inputTokens :: jsnumber
  outputTokens :: jsnumber
  pages :: "Page list"

section \<open>Failures and promises\<close>

text \<open>
  What \<open>documind\<close> throws: its own \<^verbatim>\<open>new Error(msg)\<close>, the string it throws when
  the download gives no local path, the \<^verbatim>\<open>TypeError\<close> of \<^verbatim>\<open>pLimit\<close> for a
  concurrency below one, and whatever a collaborator threw (of type \<open>'e\<close>), passed on
  unchanged.
\<close>

datatype 'e thrown = JsError jsstring | JsString jsstring | LimitTypeError | Raised 'e

text \<open>
  The state of a promise. \<open>Pending\<close> is the promise that has not settled: in the
  parallel mode, while some dispatched call has not finished.
\<close>

datatype ('e, 'a) promise = Pending | Rejected 'e | Fulfilled 'a

section \<open>The collaborators\<close>

text \<open>
  Everything \<open>documind\<close> calls and does not define is a field of the environment: the
  process environment and the clock, \<^verbatim>\<open>path.join\<close>, the file system, the helpers of
  \<^verbatim>\<open>utils\<close>, the completion adapter \<^verbatim>\<open>getCompletion\<close>, and the order in which
  the outstanding adapter calls of the parallel mode finish (each entry is the index of
  the work unit whose call finishes next). A collaborator that can throw returns
  \<open>Inl e\<close>, or \<open>Some e\<close> where it has no result.
\<close>

record ('e, 'p) Env =
  BASE_URL :: "jsstring option"
  startTime :: int
  endTime :: int
  rand :: jsstring
  os_tmpdir :: jsstring
  path_join :: "jsstring \<Rightarrow> jsstring \<Rightarrow> jsstring"
  validateLLMParams :: "'p option \<Rightarrow> 'e + 'p"
  ensureDir :: "jsstring \<Rightarrow> 'e option"
  downloadFile :: "jsstring \<Rightarrow> jsstring \<Rightarrow> 'e + (jsstring \<times> jsstring option)"
  convertFileToPdf :: "jsstring \<Rightarrow> jsstring \<Rightarrow> jsstring \<Rightarrow> 'e + jsstring"
  convertPdfToImages :: "jsstring \<Rightarrow> PagesArg \<Rightarrow> jsstring \<Rightarrow> 'e option"
  readdir :: "jsstring \<Rightarrow> 'e + jsstring list"
  getCompletion :: "'p CompletionArgs \<Rightarrow> 'e + CompletionResponse"
  formatMarkdown :: "jsstring \<Rightarrow> jsstring"
  writeFile :: "jsstring \<Rightarrow> jsstring \<Rightarrow> 'e option"
  remove :: "jsstring \<Rightarrow> 'e option"
  completionOrder :: "nat list"

text \<open>
  What a call of \<open>documind\<close> leaves behind: the temporary directory if it was created
  and not removed, the caller's \<^verbatim>\<open>pagesToConvertAsImages\<close> object, the adapter calls
  made (in the order of their dispatch) and the file written.
\<close>

record 'p World =
  tempDirectoryOnDisk :: "jsstring option"
  callerPages :: "PagesArg option"
  adapterCalls :: "'p CompletionArgs list"
  writtenFile :: "(jsstring \<times> jsstring) option"

section \<open>The run state\<close>

text \<open>
  The mutable locals of \<open>documind\<close> (lines 35 to 38), and \<open>calls\<close>, the log of the
  argument objects given to \<^verbatim>\<open>getCompletion\<close> so far.
\<close>

record 'p RunState =
  inputTokenCount :: jsnumber
  outputTokenCount :: jsnumber
  priorPage :: jsstring
  aggregatedMarkdown :: "jsstring list"
  calls :: "'p CompletionArgs list"

text \<open>What stays the same in every adapter call of a run.\<close>

record 'p Job =
  job_apiKey :: jsstring
  job_tempDirectory :: jsstring
  job_llmParams :: 'p
  job_maintainFormat :: bool
  job_model :: ModelOptions

definition completionArgs ::
  "('e, 'p) Env \<Rightarrow> 'p Job \<Rightarrow> jsstring \<Rightarrow> jsstring \<Rightarrow> 'p CompletionArgs" where
  "completionArgs env job img prior =
     \<lparr> apiKey = job_apiKey job,
       imagePath = path_join env (job_tempDirectory job) img,
       CompletionArgs.llmParams = job_llmParams job,
       CompletionArgs.maintainFormat = job_maintainFormat job,
       CompletionArgs.model = job_model job,
       CompletionArgs.priorPage = prior \<rparr>"

text \<open>
  Lines 117 to 122 and 144 to 149: what both modes do with a response. The state may
  carry the fields of the parallel executor as well.
\<close>

definition account ::
  "('e, 'p) Env \<Rightarrow> CompletionResponse \<Rightarrow> ('p, 'z) RunState_scheme \<Rightarrow> ('p, 'z) RunState_scheme" where
  "account env r st =
     st\<lparr> inputTokenCount := js_add (inputTokenCount st) (CompletionResponse.inputTokens r),
         outputTokenCount := js_add (outputTokenCount st) (CompletionResponse.outputTokens r),
         priorPage := formatMarkdown env (CompletionResponse.content r) \<rparr>"

section \<open>The sequential executor\<close>

text \<open>
  Lines 106 to 130: one adapter call per image, in order; the first failure is rethrown
  and ends the loop.
\<close>

fun sequential ::
  "('e, 'p) Env \<Rightarrow> 'p Job \<Rightarrow> jsstring list \<Rightarrow> 'p RunState \<Rightarrow> 'p RunState \<times> 'e option" where
  "sequential env job [] st = (st, None)"
| "sequential env job (img # rest) st =
     (let args = completionArgs env job img (priorPage st);
          st1 = st\<lparr> calls := calls st @ [args] \<rparr>
      in case getCompletion env args of
           Inl e \<Rightarrow> (st1, Some e)
         | Inr r \<Rightarrow>
             sequential env job rest
               ((account env r st1)
                  \<lparr> aggregatedMarkdown :=
                      aggregatedMarkdown st1 @ [formatMarkdown env (CompletionResponse.content r)] \<rparr>))"

section \<open>The bounded-parallel executor\<close>

text \<open>
  Lines 133 to 178. \<^verbatim>\<open>processPage\<close> runs in two parts: up to its \<^verbatim>\<open>await\<close> it
  builds the argument object from the current \<^verbatim>\<open>priorPage\<close> and calls the adapter; when
  the call has finished it resumes with the response, or rethrows the failure.

  The state of the executor is the run state and
  \<^item> \<open>results\<close>: the array of line 161, a hole being \<open>None\<close>;
  \<^item> \<open>queue\<close>: the tasks given to the limiter and not started, with their indices;
  \<^item> \<open>active\<close>: the tasks started whose adapter call has not finished, with the
    argument object of the call;
  \<^item> \<open>rejection\<close>: the first failure, with which \<^verbatim>\<open>Promise.all\<close> rejects.
\<close>

record ('e, 'p) ParState = "'p RunState" +
  results :: "jsstring option list"
  queue :: "(nat \<times> jsstring) list"
  active :: "(nat \<times> 'p CompletionArgs) list"
  rejection :: "'e option"

text \<open>
  \<^verbatim>\<open>xs[i] = v\<close> on an array: past the end the array grows, and the slots between are
  holes.
\<close>

definition array_set :: "'a option list \<Rightarrow> nat \<Rightarrow> 'a \<Rightarrow> 'a option list" where
  "array_set xs i v =
     (if i < length xs then xs[i := Some v]
      else xs @ replicate (i - length xs) None @ [Some v])"

text \<open>
  Modelled from the spec: \<^verbatim>\<open>isString\<close> of \<^verbatim>\<open>utils\<close> is not among the sources. The
  spec has the null and never-written slots filtered out before aggregation, so it holds
  of the slots that carry a string.
\<close>

definition isString :: "jsstring option \<Rightarrow> bool" where
  "isString slot \<longleftrightarrow> slot \<noteq> None"

text \<open>
  The limiter, \<^verbatim>\<open>p-limit\<close>, is a dependency of the repository. It is modelled as it is
  documented: the tasks start in the order in which they were given to it, at most
  \<open>concurrency\<close> of them run at a time, and when a task settles, fulfilled or rejected,
  the next one of the queue starts. Starting a task runs \<^verbatim>\<open>processPage\<close> up to the
  adapter call.
\<close>

definition start_next :: "('e, 'p) Env \<Rightarrow> 'p Job \<Rightarrow> ('e, 'p) ParState \<Rightarrow> ('e, 'p) ParState" where
  "start_next env job st =
     (case queue st of
        [] \<Rightarrow> st
      | (index, img) # waiting \<Rightarrow>
          (let args = completionArgs env job img (priorPage st)
           in st\<lparr> calls := calls st @ [args],
                   queue := waiting,
                   active := active st @ [(index, args)] \<rparr>))"

text \<open>
  After \<^verbatim>\<open>limit(fn)\<close> has queued a task, the limiter starts one if fewer than
  \<open>concurrency\<close> are running.
\<close>

definition try_start ::
  "('e, 'p) Env \<Rightarrow> 'p Job \<Rightarrow> int \<Rightarrow> ('e, 'p) ParState \<Rightarrow> ('e, 'p) ParState" where
  "try_start env job limit st =
     (if int (length (active st)) < limit then start_next env job st else st)"

text \<open>
  \<^verbatim>\<open>processPage\<close> resumes with the outcome of its adapter call. On a response it
  adds the tokens, sets \<^verbatim>\<open>priorPage\<close> and returns the formatted markdown, which
  line 166 stores at \<open>index\<close>. On a failure it rethrows (line 155): the promise of the
  task rejects, and with it \<^verbatim>\<open>Promise.all\<close>, unless it has rejected before.
\<close>

definition resume ::
  "('e, 'p) Env \<Rightarrow> nat \<Rightarrow> 'p CompletionArgs \<Rightarrow> ('e, 'p) ParState \<Rightarrow> ('e, 'p) ParState" where
  "resume env index args st =
     (case getCompletion env args of
        Inl e \<Rightarrow>
          st\<lparr> rejection := (case rejection st of None \<Rightarrow> Some e | Some e0 \<Rightarrow> Some e0) \<rparr>
      | Inr r \<Rightarrow>
          (account env r st)
            \<lparr> results :=
                array_set (results st) index
                  (formatMarkdown env (CompletionResponse.content r)) \<rparr>)"

text \<open>
  The adapter call of the work unit \<open>index\<close> finishes: its task is no longer running,
  \<^verbatim>\<open>processPage\<close> resumes, and the limiter starts the next task of its queue, whether
  the task was fulfilled or rejected. An index with no outstanding call changes nothing.
\<close>

definition finish_call ::
  "('e, 'p) Env \<Rightarrow> 'p Job \<Rightarrow> nat \<Rightarrow> ('e, 'p) ParState \<Rightarrow> ('e, 'p) ParState" where
  "finish_call env job index st =
     (case map_of (active st) index of
        None \<Rightarrow> st
      | Some args \<Rightarrow>
          start_next env job
            (resume env index args
               (st\<lparr> active := filter (\<lambda>t. fst t \<noteq> index) (active st) \<rparr>)))"

definition par_init :: "jsstring list \<Rightarrow> 'p RunState \<Rightarrow> ('e, 'p) ParState" where
  "par_init images st =
     RunState.extend st
       (ParState.fields [] (zip [0..<length images] images) [] None)"

text \<open>
  \<^verbatim>\<open>processPagesInBatches\<close>: every image is given to the limiter with its index, the
  calls finish in the order \<open>order\<close>, and \<^verbatim>\<open>Promise.all\<close> rejects with the first
  failure, is fulfilled when every task is done, and is pending otherwise.
\<close>

definition par_final ::
  "('e, 'p) Env \<Rightarrow> 'p Job \<Rightarrow> int \<Rightarrow> jsstring list \<Rightarrow> nat list \<Rightarrow> 'p RunState \<Rightarrow> ('e, 'p) ParState" where
  "par_final env job limit images order st =
     fold (finish_call env job) order
       (fold (\<lambda>_. try_start env job limit) images (par_init images st))"

definition settled :: "('e, 'p) ParState \<Rightarrow> ('e, jsstring option list) promise" where
  "settled st =
     (case rejection st of
        Some e \<Rightarrow> Rejected e
      | None \<Rightarrow> if queue st = [] \<and> active st = [] then Fulfilled (results st) else Pending)"

definition processPagesInBatches ::
  "('e, 'p) Env \<Rightarrow> 'p Job \<Rightarrow> int \<Rightarrow> jsstring list \<Rightarrow> nat list \<Rightarrow> 'p RunState \<Rightarrow>
     'p RunState \<times> ('e, jsstring option list) promise" where
  "processPagesInBatches env job limit images order st =
     (let fin = par_final env job limit images order st
      in (RunState.truncate fin, settled fin))"

section \<open>The two modes\<close>

definition initialState :: "'p RunState" where
  "initialState =
     \<lparr> inputTokenCount = Num 0, outputTokenCount = Num 0, priorPage = [],
       aggregatedMarkdown = [], calls = [] \<rparr>"

text \<open>
  Lines 104 to 179. In the parallel mode \<^verbatim>\<open>pLimit(concurrency)\<close> throws for a
  concurrency below one, before any task exists.
\<close>

definition process ::
  "('e, 'p) Env \<Rightarrow> 'p Job \<Rightarrow> int \<Rightarrow> jsstring list \<Rightarrow>
     'p RunState \<times> ('e thrown, unit) promise" where
  "process env job limit images =
     (if job_maintainFormat job then
        (case sequential env job images initialState of
           (st, Some e) \<Rightarrow> (st, Rejected (Raised e))
         | (st, None) \<Rightarrow> (st, Fulfilled ()))
      else if limit < 1 then (initialState, Rejected LimitTypeError)
      else
        (case processPagesInBatches env job limit images (completionOrder env) initialState of
           (st, Pending) \<Rightarrow> (st, Pending)
         | (st, Rejected e) \<Rightarrow> (st, Rejected (Raised e))
         | (st, Fulfilled slots) \<Rightarrow>
             (st\<lparr> aggregatedMarkdown :=
                    aggregatedMarkdown st @ map the (filter isString slots) \<rparr>,
              Fulfilled ())))"

section \<open>Page numbers and the output\<close>

text \<open>Lines 194 to 206.\<close>

definition pageNumber :: "PagesArg \<Rightarrow> nat \<Rightarrow> int option" where
  "pageNumber pagesArg i =
     (if pagesArg = PageNumber (- 1) then Some (int i + 1)
      else (case pagesArg of
              PageList xs \<Rightarrow> (if i < length xs then Some (xs ! i) else None)
            | PageNumber n \<Rightarrow> Some n))"

definition formattedPages :: "PagesArg \<Rightarrow> jsstring list \<Rightarrow> Page list" where
  "formattedPages pagesArg markdown =
     map (\<lambda>(el, i). \<lparr> Page.content = el, contentLength = length el, page = pageNumber pagesArg i \<rparr>)
       (zip markdown [0..<length markdown])"

text \<open>
  Lines 181 to 217: the result file, the cleanup and the response. An empty
  \<^verbatim>\<open>outputDir\<close> is falsy, like a missing one.
\<close>

definition finish ::
  "('e, 'p) Env \<Rightarrow> bool \<Rightarrow> jsstring \<Rightarrow> PagesArg \<Rightarrow> jsstring \<Rightarrow> jsstring \<Rightarrow>
     'p World \<Rightarrow> 'p RunState \<Rightarrow> 'p World \<times> ('e thrown, DocumindOutput) promise" where
  "finish env cleanupFlag outDir pagesArg tempDirectory name w st =
     (let resultFilePath = path_join env outDir (name @ js ''.md'');
          text = join [10, 10] (aggregatedMarkdown st)
      in case (if outDir \<noteq> [] then writeFile env resultFilePath text else None) of
           Some e \<Rightarrow> (w, Rejected (Raised e))
         | None \<Rightarrow>
             (let w1 = (if outDir \<noteq> [] then w\<lparr> writtenFile := Some (resultFilePath, text) \<rparr> else w)
              in case (if cleanupFlag then remove env tempDirectory else None) of
                   Some e \<Rightarrow> (w1, Rejected (Raised e))
                 | None \<Rightarrow>
                     ((if cleanupFlag then w1\<lparr> tempDirectoryOnDisk := None \<rparr> else w1),
                      Fulfilled
                        \<lparr> completionTime = endTime env - startTime env,
                          fileName = name,
                          DocumindOutput.inputTokens = inputTokenCount st,
                          DocumindOutput.outputTokens = outputTokenCount st,
                          pages = formattedPages pagesArg (aggregatedMarkdown st) \<rparr>)))"

section \<open>documind\<close>

definition orDefault :: "'a \<Rightarrow> 'a option \<Rightarrow> 'a" where
  "orDefault d x = (case x of None \<Rightarrow> d | Some v \<Rightarrow> v)"

text \<open>Lines 28 to 33.\<close>

definition defaultModel :: "('e, 'p) Env \<Rightarrow> 'p DocumindArgs \<Rightarrow> ModelOptions" where
  "defaultModel env args =
     (let openai = js ''https://api.openai.com/v1'';
          baseUrl = (case BASE_URL env of None \<Rightarrow> openai | Some u \<Rightarrow> if u = [] then openai else u)
      in case DocumindArgs.model args of
           Some m \<Rightarrow> m
         | None \<Rightarrow> if baseUrl \<noteq> openai then llava else gpt_4o_mini)"

text \<open>Lines 68 to 70: \<^verbatim>\<open>sort((a, b) => a - b)\<close> sorts the array itself, ascending.\<close>

definition sortPages :: "PagesArg \<Rightarrow> PagesArg" where
  "sortPages pagesArg = (case pagesArg of PageList xs \<Rightarrow> PageList (sort xs) | PageNumber n \<Rightarrow> PageNumber n)"

text \<open>
  Lines 72 to 90: every file but a \<^verbatim>\<open>.png\<close> is converted to a PDF unless it is one,
  and the PDF to images.
\<close>

definition convert ::
  "('e, 'p) Env \<Rightarrow> jsstring \<Rightarrow> jsstring \<Rightarrow> PagesArg \<Rightarrow> jsstring \<Rightarrow> 'e option" where
  "convert env extension localPath pagesArg tempDirectory =
     (if extension \<noteq> js ''.png'' then
        (case (if extension = js ''.pdf'' then Inr localPath
               else convertFileToPdf env extension localPath tempDirectory) of
           Inl e \<Rightarrow> Some e
         | Inr pdfPath \<Rightarrow> convertPdfToImages env pdfPath pagesArg tempDirectory)
      else None)"

text \<open>
  The values \<open>documind\<close> computes from its arguments alone: the page selection after
  its default and the sort, the concurrency, the flags, the temporary directory (lines 52
  to 56), the images among the files of the directory (line 102), and the constant part
  of the adapter's arguments.
\<close>

definition pagesArg_of :: "'p DocumindArgs \<Rightarrow> PagesArg" where
  "pagesArg_of args = sortPages (orDefault (PageNumber (- 1)) (pagesToConvertAsImages args))"

definition limit_of :: "'p DocumindArgs \<Rightarrow> int" where
  "limit_of args = orDefault 10 (concurrency args)"

definition tempDirectory_of :: "('e, 'p) Env \<Rightarrow> 'p DocumindArgs \<Rightarrow> jsstring" where
  "tempDirectory_of env args =
     path_join env
       (if orDefault (os_tmpdir env) (tempDir args) = [] then os_tmpdir env
        else orDefault (os_tmpdir env) (tempDir args))
       (js ''documind-file-'' @ rand env)"

definition pngs :: "jsstring list \<Rightarrow> jsstring list" where
  "pngs files = filter (\<lambda>file. endsWith file (js ''.png'')) files"

definition job_of :: "('e, 'p) Env \<Rightarrow> 'p DocumindArgs \<Rightarrow> 'p \<Rightarrow> 'p Job" where
  "job_of env args llm =
     \<lparr> job_apiKey = orDefault [] (openaiAPIKey args),
       job_tempDirectory = tempDirectory_of env args,
       job_llmParams = llm,
       job_maintainFormat = orDefault False (DocumindArgs.maintainFormat args),
       job_model = defaultModel env args \<rparr>"

text \<open>
  Lines 59 to 217, once the temporary directory exists: the download, the sort of the
  caller's array, the conversion, the list of images, the processing and the response.
\<close>

definition run ::
  "('e, 'p) Env \<Rightarrow> 'p DocumindArgs \<Rightarrow> 'p \<Rightarrow> 'p World \<Rightarrow>
     'p World \<times> ('e thrown, DocumindOutput) promise" where
  "run env args llm w =
     (case downloadFile env (filePath args) (tempDirectory_of env args) of
        Inl e \<Rightarrow> (w, Rejected (Raised e))
      | Inr (extension, None) \<Rightarrow> (w, Rejected (JsString (js ''Failed to save file to local drive'')))
      | Inr (extension, Some localPath) \<Rightarrow>
          if localPath = [] then (w, Rejected (JsString (js ''Failed to save file to local drive'')))
          else
            (let w1 = w\<lparr> callerPages := map_option sortPages (callerPages w) \<rparr>
             in case convert env extension localPath (pagesArg_of args) (tempDirectory_of env args) of
                  Some e \<Rightarrow> (w1, Rejected (Raised e))
                | None \<Rightarrow>
                    (case readdir env (tempDirectory_of env args) of
                       Inl e \<Rightarrow> (w1, Rejected (Raised e))
                     | Inr files \<Rightarrow>
                         (case process env (job_of env args llm) (limit_of args) (pngs files) of
                            (st, Pending) \<Rightarrow> (w1\<lparr> adapterCalls := calls st \<rparr>, Pending)
                          | (st, Rejected e) \<Rightarrow> (w1\<lparr> adapterCalls := calls st \<rparr>, Rejected e)
                          | (st, Fulfilled u) \<Rightarrow>
                              finish env (orDefault True (cleanup args))
                                (orDefault [] (outputDir args)) (pagesArg_of args)
                                (tempDirectory_of env args) (fileName_of localPath)
                                (w1\<lparr> adapterCalls := calls st \<rparr>) st))))"

text \<open>
  Lines 16 to 57: the defaults, the validators and the temporary directory. The world
  starts with no temporary directory, the caller's page argument as passed, no adapter
  call and no file written.
\<close>

definition initialWorld :: "'p DocumindArgs \<Rightarrow> 'p World" where
  "initialWorld args =
     \<lparr> tempDirectoryOnDisk = None, callerPages = pagesToConvertAsImages args,
       adapterCalls = [], writtenFile = None \<rparr>"

definition documind ::
  "('e, 'p) Env \<Rightarrow> 'p DocumindArgs \<Rightarrow> 'p World \<times> ('e thrown, DocumindOutput) promise" where
  "documind env args =
     (case validateLLMParams env (DocumindArgs.llmParams args) of
        Inl e \<Rightarrow> (initialWorld args, Rejected (Raised e))
      | Inr llm \<Rightarrow>
          if orDefault [] (openaiAPIKey args) = [] then
            (initialWorld args, Rejected (JsError (js ''Missing OpenAI API key'')))
          else if filePath args = [] then
            (initialWorld args, Rejected (JsError (js ''Missing file path'')))
          else
            (case ensureDir env (tempDirectory_of env args) of
               Some e \<Rightarrow> (initialWorld args, Rejected (Raised e))
             | None \<Rightarrow>
                 run env args llm
                   ((initialWorld args)\<lparr> tempDirectoryOnDisk := Some (tempDirectory_of env args) \<rparr>)))"

text \<open>
  The world when the processing starts: the temporary directory exists and the caller's
  array is sorted.
\<close>

definition sortedWorld :: "('e, 'p) Env \<Rightarrow> 'p DocumindArgs \<Rightarrow> 'p World" where
  "sortedWorld env args =
     \<lparr> tempDirectoryOnDisk = Some (tempDirectory_of env args),
       callerPages = map_option sortPages (pagesToConvertAsImages args),
       adapterCalls = [], writtenFile = None \<rparr>"

text \<open>The output of a fulfilled promise, if it is one.\<close>

definition outputOf :: "('e, 'a) promise \<Rightarrow> 'a option" where
  "outputOf p = (case p of Fulfilled a \<Rightarrow> Some a | Rejected e \<Rightarrow> None | Pending \<Rightarrow> None)"

text \<open>
  The temporary directory is created (line 57) when the parameters are valid, the API key
  and the file path are not empty and \<^verbatim>\<open>ensureDir\<close> succeeds.
\<close>

definition directoryCreated :: "('e, 'p) Env \<Rightarrow> 'p DocumindArgs \<Rightarrow> bool" where
  "directoryCreated env args \<longleftrightarrow>
     (case validateLLMParams env (DocumindArgs.llmParams args) of Inl e \<Rightarrow> False | Inr llm \<Rightarrow> True) \<and>
     orDefault [] (openaiAPIKey args) \<noteq> [] \<and> filePath args \<noteq> [] \<and>
     ensureDir env (tempDirectory_of env args) = None"

text \<open>
  The run reaches the sort of line 69 when, moreover, the download gives a local path.
\<close>

definition reachesSort :: "('e, 'p) Env \<Rightarrow> 'p DocumindArgs \<Rightarrow> bool" where
  "reachesSort env args \<longleftrightarrow>
     directoryCreated env args \<and>
     (case downloadFile env (filePath args) (tempDirectory_of env args) of
        Inl e \<Rightarrow> False
      | Inr (extension, None) \<Rightarrow> False
      | Inr (extension, Some localPath) \<Rightarrow> localPath \<noteq> [])"

section \<open>The sanitised name, in the words of the specification\<close>

text \<open>
  The specification describes the file name of the output as sanitised: non-word
  characters stripped, whitespace replaced by an underscore, lower-cased. Read in one
  pass over the name: a word character is kept in lower case, a run of whitespace gives
  one underscore, and any other character is dropped (also inside a run of whitespace,
  which it does not end). \<open>in_space\<close> says that the run's underscore is already written.
\<close>

fun sanitized_spec :: "bool \<Rightarrow> jsstring \<Rightarrow> jsstring" where
  "sanitized_spec in_space [] = []"
| "sanitized_spec in_space (c # cs) =
     (if is_word c then to_lower_unit c # sanitized_spec False cs
      else if is_space c then
        (if in_space then sanitized_spec True cs else 95 # sanitized_spec True cs)
      else sanitized_spec in_space cs)"

text \<open>The lower-case letters, the digits and the underscore.\<close>

definition is_lower_word :: "nat \<Rightarrow> bool" where
  "is_lower_word c \<longleftrightarrow> (48 \<le> c \<and> c \<le> 57) \<or> c = 95 \<or> (97 \<le> c \<and> c \<le> 122)"

text \<open>
  Modelled from the specification: the base name of a file is the last segment of its
  path without the extension, and the extension starts at the last dot of that segment.
  A segment with no dot, or whose only dot is its first character, has no extension.
\<close>

definition baseName_spec :: "jsstring \<Rightarrow> jsstring" where
  "baseName_spec localPath =
     (let name = endOfPath localPath;
          stem = rev (tl (dropWhile (\<lambda>c. c \<noteq> 46) (rev name)))
      in if 46 \<notin> set name \<or> stem = [] then name else stem)"

section \<open>Observations on the adapter calls\<close>

text \<open>
  What the adapter answered to a logged call: the formatted markdown of its response,
  the token counts it reported, read as integers (0 for a call that failed and for a count
  that is not finite), and whether it succeeded.
\<close>

fun is_integer :: "jsnumber \<Rightarrow> bool" where
  "is_integer (Num n) = True"
| "is_integer x = False"

fun integer_of :: "jsnumber \<Rightarrow> int" where
  "integer_of (Num n) = n"
| "integer_of x = 0"

definition formatted :: "('e, 'p) Env \<Rightarrow> 'p CompletionArgs \<Rightarrow> jsstring" where
  "formatted env a =
     (case getCompletion env a of
        Inl e \<Rightarrow> []
      | Inr r \<Rightarrow> formatMarkdown env (CompletionResponse.content r))"

definition inputReported :: "('e, 'p) Env \<Rightarrow> 'p CompletionArgs \<Rightarrow> int" where
  "inputReported env a =
     (case getCompletion env a of
        Inl e \<Rightarrow> 0
      | Inr r \<Rightarrow> integer_of (CompletionResponse.inputTokens r))"

definition outputReported :: "('e, 'p) Env \<Rightarrow> 'p CompletionArgs \<Rightarrow> int" where
  "outputReported env a =
     (case getCompletion env a of
        Inl e \<Rightarrow> 0
      | Inr r \<Rightarrow> integer_of (CompletionResponse.outputTokens r))"

definition succeeds :: "('e, 'p) Env \<Rightarrow> 'p CompletionArgs \<Rightarrow> bool" where
  "succeeds env a = (case getCompletion env a of Inl e \<Rightarrow> False | Inr r \<Rightarrow> True)"

text \<open>
  The counts of a log of calls are safe when every response reports finite counts and the
  absolute values of the input counts, and of the output counts, add up to less than
  \<open>2\<^sup>5\<^sup>3\<close>: then every partial sum, in whatever order the calls finish, is an integer
  that a double holds exactly.
\<close>

definition integerCounts :: "('e, 'p) Env \<Rightarrow> 'p CompletionArgs \<Rightarrow> bool" where
  "integerCounts env a =
     (case getCompletion env a of
        Inl e \<Rightarrow> True
      | Inr r \<Rightarrow> is_integer (CompletionResponse.inputTokens r) \<and>
                is_integer (CompletionResponse.outputTokens r))"

definition safeCounts :: "('e, 'p) Env \<Rightarrow> 'p CompletionArgs list \<Rightarrow> bool" where
  "safeCounts env cs \<longleftrightarrow>
     list_all (integerCounts env) cs \<and>
     sum_list (map (\<lambda>a. \<bar>inputReported env a\<bar>) cs) < 2 ^ 53 \<and>
     sum_list (map (\<lambda>a. \<bar>outputReported env a\<bar>) cs) < 2 ^ 53"

text \<open>
  A log of calls is threaded from \<open>prior\<close> when its first call was given \<open>prior\<close>
  as the prior page, every later call the formatted response of the call before it, and no
  call follows one that failed.
\<close>

fun threaded :: "('e, 'p) Env \<Rightarrow> jsstring \<Rightarrow> 'p CompletionArgs list \<Rightarrow> bool" where
  "threaded env prior [] = True"
| "threaded env prior (a # rest) =
     (CompletionArgs.priorPage a = prior \<and>
      (case getCompletion env a of
         Inl e \<Rightarrow> rest = []
       | Inr r \<Rightarrow> threaded env (formatMarkdown env (CompletionResponse.content r)) rest))"

text \<open>
  The calls that the loop of lines 106 to 130 makes for a list of images, starting from a
  prior page: \<open>sequential\<close> reduced to its log.
\<close>

fun requests :: "('e, 'p) Env \<Rightarrow> 'p Job \<Rightarrow> jsstring list \<Rightarrow> jsstring \<Rightarrow> 'p CompletionArgs list" where
  "requests env job [] prior = []"
| "requests env job (img # rest) prior =
     completionArgs env job img prior #
       (case getCompletion env (completionArgs env job img prior) of
          Inl e \<Rightarrow> []
        | Inr r \<Rightarrow> requests env job rest (formatMarkdown env (CompletionResponse.content r)))"

section \<open>Invariants of the parallel executor\<close>

text \<open>
  The units whose call has finished are the dispatched ones that are not running. Along
  every run of the executor
  \<^item> the calls are dispatched in the order of the images, call \<open>i\<close> for image \<open>i\<close>,
    and the running tasks hold the arguments of their calls;
  \<^item> the slot of a finished unit that succeeded holds its formatted markdown;
  \<^item> a finished unit has failed exactly when \<^verbatim>\<open>Promise.all\<close> has rejected, with the
    failure of such a unit;
  \<^item> the token counters are the sums over the finished units, as long as the counts of
    the calls made so far are safe.
\<close>

definition finished :: "('e, 'p) ParState \<Rightarrow> nat set" where
  "finished st = {i. i < length (calls st) \<and> i \<notin> fst ` set (active st)}"

definition inv_dispatch :: "('e, 'p) Env \<Rightarrow> 'p Job \<Rightarrow> jsstring list \<Rightarrow> ('e, 'p) ParState \<Rightarrow> bool" where
  "inv_dispatch env job images st \<longleftrightarrow>
     length (calls st) \<le> length images \<and>
     queue st = drop (length (calls st)) (zip [0..<length images] images) \<and>
     distinct (map fst (active st)) \<and>
     (\<forall>t\<in>set (active st). fst t < length (calls st) \<and> snd t = calls st ! fst t) \<and>
     (\<forall>i<length (calls st).
        calls st ! i = completionArgs env job (images ! i) (CompletionArgs.priorPage (calls st ! i)))"

definition inv_results :: "('e, 'p) Env \<Rightarrow> ('e, 'p) ParState \<Rightarrow> bool" where
  "inv_results env st \<longleftrightarrow>
     length (results st) \<le> length (calls st) \<and>
     (\<forall>i\<in>finished st. succeeds env (calls st ! i) \<longrightarrow>
        i < length (results st) \<and> results st ! i = Some (formatted env (calls st ! i)))"

definition inv_rejection :: "('e, 'p) Env \<Rightarrow> ('e, 'p) ParState \<Rightarrow> bool" where
  "inv_rejection env st \<longleftrightarrow>
     (\<forall>i\<in>finished st. \<not> succeeds env (calls st ! i) \<longrightarrow> rejection st \<noteq> None) \<and>
     (\<forall>e. rejection st = Some e \<longrightarrow>
        (\<exists>i\<in>finished st. getCompletion env (calls st ! i) = Inl e))"

definition inv_tokens :: "('e, 'p) Env \<Rightarrow> ('e, 'p) ParState \<Rightarrow> bool" where
  "inv_tokens env st \<longleftrightarrow>
     (safeCounts env (calls st) \<longrightarrow>
        inputTokenCount st = Num (\<Sum>i\<in>finished st. inputReported env (calls st ! i)) \<and>
        outputTokenCount st = Num (\<Sum>i\<in>finished st. outputReported env (calls st ! i)))"

definition par_inv :: "('e, 'p) Env \<Rightarrow> 'p Job \<Rightarrow> jsstring list \<Rightarrow> ('e, 'p) ParState \<Rightarrow> bool" where
  "par_inv env job images st \<longleftrightarrow>
     inv_dispatch env job images st \<and> inv_results env st \<and> inv_rejection env st \<and>
     inv_tokens env st"

section \<open>Example runs\<close>

text \<open>
  A concrete environment for the examples: the temporary directory is
  \<^verbatim>\<open>/t/documind-file-1234\<close>, the download saves \<^verbatim>\<open>My Report (v2).pdf\<close> there, the
  directory lists \<open>files\<close>, and the outstanding calls of the parallel mode finish in the
  order \<open>order\<close>. The adapter fails with the error \<open>404\<close> on an image named
  \<^verbatim>\<open>bad.png\<close>; on any other image it answers with the image path, a bar and the prior
  page it was given, and reports the lengths of the two as its token counts.
\<close>

definition exampleAdapter :: "unit CompletionArgs \<Rightarrow> nat + CompletionResponse" where
  "exampleAdapter a =
     (if imagePath a = js ''/t/documind-file-1234/bad.png'' then Inl 404
      else Inr \<lparr> CompletionResponse.content = imagePath a @ js ''|'' @ CompletionArgs.priorPage a,
                 CompletionResponse.inputTokens = Num (int (length (imagePath a))),
                 CompletionResponse.outputTokens =
                   Num (int (length (CompletionArgs.priorPage a))) \<rparr>)"

definition exampleEnv :: "jsstring list \<Rightarrow> nat list \<Rightarrow> (nat, unit) Env" where
  "exampleEnv files order =
     \<lparr> BASE_URL = None, startTime = 1000, endTime = 1250, rand = js ''1234'',
       os_tmpdir = js ''/t'',
       path_join = (\<lambda>a b. a @ js ''/'' @ b),
       validateLLMParams = (\<lambda>p. Inr ()),
       ensureDir = (\<lambda>d. None),
       downloadFile = (\<lambda>f d. Inr (js ''.pdf'', Some (d @ js ''/My Report (v2).pdf''))),
       convertFileToPdf = (\<lambda>ext f d. Inr f),
       convertPdfToImages = (\<lambda>f p d. None),
       readdir = (\<lambda>d. Inr files),
       getCompletion = exampleAdapter,
       formatMarkdown = (\<lambda>s. s),
       writeFile = (\<lambda>f t. None),
       remove = (\<lambda>d. None),
       completionOrder = order \<rparr>"

text \<open>
  The arguments of the examples: an API key, a file path, and the mode, the concurrency
  and the page selection of the example; everything else is left to its default.
\<close>

definition exampleArgs :: "bool \<Rightarrow> int \<Rightarrow> PagesArg option \<Rightarrow> unit DocumindArgs" where
  "exampleArgs keepFormat limit selection =
     \<lparr> cleanup = None, concurrency = Some limit, filePath = js ''My Report (v2).pdf'',
       DocumindArgs.llmParams = None, DocumindArgs.maintainFormat = Some keepFormat,
       DocumindArgs.model = None, openaiAPIKey = Some (js ''key''), outputDir = None,
       pagesToConvertAsImages = selection, tempDir = None \<rparr>"

definition threePages :: "jsstring list" where
  "threePages = [js ''1.png'', js ''2.png'', js ''3.png'', js ''My Report (v2).pdf'']"

definition fivePagesSecondBad :: "jsstring list" where
  "fivePagesSecondBad = [js ''1.png'', js ''bad.png'', js ''3.png'', js ''4.png'', js ''5.png'']"

text \<open>
  An adapter that reports \<open>2\<^sup>5\<^sup>3\<close> input tokens for the image \<^verbatim>\<open>1.png\<close> and one input
  token for any other image, and the example environment with this adapter.
\<close>

definition hugeAdapter :: "unit CompletionArgs \<Rightarrow> nat + CompletionResponse" where
  "hugeAdapter a =
     Inr \<lparr> CompletionResponse.content = imagePath a,
           CompletionResponse.inputTokens =
             (if imagePath a = js ''/t/documind-file-1234/1.png'' then Num 9007199254740992
              else Num 1),
           CompletionResponse.outputTokens = Num 0 \<rparr>"

definition hugeEnv :: "(nat, unit) Env" where
  "hugeEnv = (exampleEnv threePages [])\<lparr> getCompletion := hugeAdapter \<rparr>"

text \<open>
  The example environment with a download that saves the file as \<^verbatim>\<open>report.final.pdf\<close>.
\<close>

definition dottedEnv :: "(nat, unit) Env" where
  "dottedEnv =
     (exampleEnv threePages [])
       \<lparr> downloadFile := (\<lambda>f d. Inr (js ''.pdf'', Some (d @ js ''/report.final.pdf''))) \<rparr>"

section \<open>Proofs: numbers\<close>

text \<open>Below \<open>2\<^sup>5\<^sup>3\<close> in absolute value, the sum of two integers is exact.\<close>

lemma bit_length_pos: "0 < n \<Longrightarrow> bit_length n = Suc (bit_length (n div 2))"
  by (cases n) simp_all

lemma bit_length_le: "m < 2 ^ k \<Longrightarrow> bit_length m \<le> k"
proof (induction k arbitrary: m)
  case 0
  then show ?case by simp
next
  case (Suc k)
  show ?case
  proof (cases "m = 0")
    case True
    then show ?thesis by simp
  next
    case False
    from Suc.prems have "m div 2 < 2 ^ k" by simp
    from Suc.IH [OF this] False show ?thesis by (simp add: bit_length_pos)
  qed
qed

lemma round53_safe: "m < 2 ^ 53 \<Longrightarrow> round53 m = m"
  using bit_length_le [of m 53] by (simp add: round53_def)

lemma to_number_safe: "\<bar>s\<bar> < 2 ^ 53 \<Longrightarrow> to_number s = Num s"
proof -
  assume small: "\<bar>s\<bar> < 2 ^ 53"
  then have "nat \<bar>s\<bar> < 2 ^ 53" by simp
  then have r: "round53 (nat \<bar>s\<bar>) = nat \<bar>s\<bar>" by (rule round53_safe)
  have "(2::nat) ^ 53 < 2 ^ 1024" by simp
  with \<open>nat \<bar>s\<bar> < 2 ^ 53\<close> have "\<not> 2 ^ 1024 \<le> nat \<bar>s\<bar>" by linarith
  with r show ?thesis by (simp add: to_number_def Let_def)
qed

lemma js_add_safe: "\<bar>a + b\<bar> < 2 ^ 53 \<Longrightarrow> js_add (Num a) (Num b) = Num (a + b)"
  by (simp add: to_number_safe)

lemma is_integer_of: "is_integer x \<Longrightarrow> x = Num (integer_of x)"
  by (cases x) simp_all

lemma safeCounts_append: "safeCounts env (xs @ ys) \<Longrightarrow> safeCounts env xs"
proof -
  assume safe: "safeCounts env (xs @ ys)"
  have "0 \<le> sum_list (map (\<lambda>a. \<bar>f a\<bar>) ys)" for f :: "_ \<Rightarrow> int"
    by (rule sum_list_nonneg) auto
  from this [of "inputReported env"] this [of "outputReported env"] safe show ?thesis
    by (simp add: safeCounts_def)
qed

lemma abs_sum_nth_le:
  fixes f :: "'a \<Rightarrow> int"
  assumes "A \<subseteq> {0..<length cs}"
  shows "\<bar>\<Sum>i\<in>A. f (cs ! i)\<bar> \<le> sum_list (map (\<lambda>a. \<bar>f a\<bar>) cs)"
proof -
  have "\<bar>\<Sum>i\<in>A. f (cs ! i)\<bar> \<le> (\<Sum>i\<in>A. \<bar>f (cs ! i)\<bar>)"
    by (rule sum_abs)
  also have "\<dots> \<le> (\<Sum>i = 0..<length cs. \<bar>f (cs ! i)\<bar>)"
    using assms by (intro sum_mono2) simp_all
  also have "\<dots> = (\<Sum>i = 0..<length (map (\<lambda>a. \<bar>f a\<bar>) cs). map (\<lambda>a. \<bar>f a\<bar>) cs ! i)"
    by (rule sum.cong) simp_all
  also have "\<dots> = sum_list (map (\<lambda>a. \<bar>f a\<bar>) cs)"
    by (rule sum_list_sum_nth [symmetric])
  finally show ?thesis .
qed

section \<open>Proofs: strings and the file name\<close>

lemma split_on_nonempty: "split_on sep s \<noteq> []"
  by (induction s) (auto split: list.splits)

lemma split_on_append:
  "split_on sep (dir @ sep # name) = split_on sep dir @ split_on sep name"
  by (induction dir) (auto simp: split_on_nonempty split: list.splits)

lemma split_on_no_sep: "sep \<notin> set name \<Longrightarrow> split_on sep name = [name]"
  by (induction name) auto

lemma endOfPath_append: "47 \<notin> set name \<Longrightarrow> endOfPath (dir @ 47 # name) = name"
  by (simp add: endOfPath_def split_on_append split_on_nonempty split_on_no_sep)

lemma rawFileName_takeWhile:
  "rawFileName localPath = takeWhile (\<lambda>c. c \<noteq> 46) (endOfPath localPath)"
proof -
  have "hd (split_on sep s) = takeWhile (\<lambda>c. c \<noteq> sep) s" for sep s
    by (induction s) (auto split: list.splits simp: split_on_nonempty)
  then show ?thesis by (simp add: rawFileName_def)
qed

lemma word_not_space: "is_word c \<Longrightarrow> \<not> is_space c"
  by (auto simp: is_word_def is_space_def)

lemma sanitized_pipeline:
  "toLowerCase (underscore_spaces (strip_non_word s)) = sanitized_spec False s \<and>
   toLowerCase (underscore_spaces (dropWhile is_space (strip_non_word s))) = sanitized_spec True s"
  by (induction s) (auto simp: toLowerCase_def strip_non_word_def to_lower_unit_def word_not_space)

lemma underscore_spaces_word:
  "\<forall>c\<in>set s. is_word c \<or> is_space c \<Longrightarrow> \<forall>c\<in>set (underscore_spaces s). is_word c"
proof (induction s rule: underscore_spaces.induct)
  case 1
  then show ?case by simp
next
  case (2 c cs)
  show ?case
  proof (cases "is_space c")
    case True
    have "\<forall>c\<in>set (dropWhile is_space cs). is_word c \<or> is_space c"
      using 2(3) by (auto dest: set_dropWhileD)
    with 2(1) True show ?thesis by (simp add: is_word_def)
  next
    case False
    with 2 show ?thesis by auto
  qed
qed

lemma fileName_of_chars: "\<forall>c\<in>set (fileName_of p). is_lower_word c"
proof -
  have "\<forall>c\<in>set (underscore_spaces (strip_non_word (rawFileName p))). is_word c"
    by (rule underscore_spaces_word) (simp add: strip_non_word_def)
  then have "\<forall>c\<in>set (toLowerCase (underscore_spaces (strip_non_word (rawFileName p)))). is_lower_word c"
    by (auto simp: toLowerCase_def is_lower_word_def is_word_def to_lower_unit_def)
  then show ?thesis
    by (auto simp: fileName_of_def substring0_def dest: in_set_takeD)
qed

lemma fileName_of_example:
  assumes "endOfPath localPath = js ''My Report (v2).pdf''"
  shows "fileName_of localPath = js ''my_report_v2''"
  using assms
  by (simp add: fileName_of_def rawFileName_takeWhile js_def strip_non_word_def
      toLowerCase_def to_lower_unit_def substring0_def is_word_def is_space_def)

section \<open>Proofs: the structure of a run\<close>

lemmas model_defs = documind_def run_def initialWorld_def tempDirectory_of_def job_of_def pngs_def
  limit_of_def pagesArg_of_def convert_def sortPages_def defaultModel_def orDefault_def finish_def
  formattedPages_def pageNumber_def process_def initialState_def processPagesInBatches_def
  settled_def par_final_def par_init_def finish_call_def resume_def try_start_def start_next_def
  isString_def array_set_def account_def completionArgs_def endsWith_def Let_def
  ParState.defs RunState.defs

lemmas example_defs = exampleEnv_def exampleArgs_def exampleAdapter_def threePages_def
  fivePagesSecondBad_def js_def

text \<open>
  A run either fails before the processing, with no adapter call and nothing written, or
  reaches the processing, whose outcome decides the rest.
\<close>

lemma documind_reaches_process:
  assumes "documind env args = (w, res)"
  obtains
    (early) "adapterCalls w = []" "writtenFile w = None" "\<exists>e. res = Rejected e"
      "tempDirectoryOnDisk w = None \<or> tempDirectoryOnDisk w = Some (tempDirectory_of env args)"
  | (processed) llm ext localPath files st pr where
      "validateLLMParams env (DocumindArgs.llmParams args) = Inr llm"
      "orDefault [] (openaiAPIKey args) \<noteq> []"
      "filePath args \<noteq> []"
      "ensureDir env (tempDirectory_of env args) = None"
      "downloadFile env (filePath args) (tempDirectory_of env args) = Inr (ext, Some localPath)"
      "localPath \<noteq> []"
      "convert env ext localPath (pagesArg_of args) (tempDirectory_of env args) = None"
      "readdir env (tempDirectory_of env args) = Inr files"
      "process env (job_of env args llm) (limit_of args) (pngs files) = (st, pr)"
      "(w, res) =
         (case pr of
            Pending \<Rightarrow> ((sortedWorld env args)\<lparr> adapterCalls := calls st \<rparr>, Pending)
          | Rejected e \<Rightarrow> ((sortedWorld env args)\<lparr> adapterCalls := calls st \<rparr>, Rejected e)
          | Fulfilled u \<Rightarrow>
              finish env (orDefault True (cleanup args)) (orDefault [] (outputDir args))
                (pagesArg_of args) (tempDirectory_of env args) (fileName_of localPath)
                ((sortedWorld env args)\<lparr> adapterCalls := calls st \<rparr>) st)"
  using assms
  unfolding documind_def run_def initialWorld_def sortedWorld_def
  by (auto simp: Let_def split: sum.splits option.splits if_splits prod.splits promise.splits)

lemma finish_cases:
  assumes "finish env cleanupFlag outDir pagesArg tempDirectory name w0 st = (w, res)"
  shows "adapterCalls w = adapterCalls w0 \<and> callerPages w = callerPages w0 \<and>
         res \<noteq> Pending \<and>
         (\<forall>out. res = Fulfilled out \<longrightarrow>
            out = \<lparr> completionTime = endTime env - startTime env, fileName = name,
                    DocumindOutput.inputTokens = inputTokenCount st,
                    DocumindOutput.outputTokens = outputTokenCount st,
                    pages = formattedPages pagesArg (aggregatedMarkdown st) \<rparr> \<and>
            tempDirectoryOnDisk w = (if cleanupFlag then None else tempDirectoryOnDisk w0)) \<and>
         (\<forall>e. res = Rejected e \<longrightarrow> tempDirectoryOnDisk w = tempDirectoryOnDisk w0)"
  using assms
  unfolding finish_def
  by (auto simp: Let_def split: option.splits if_splits)

text \<open>A fulfilled run went through every step, and its output is the one of \<open>finish\<close>.\<close>

lemma documind_Fulfilled:
  assumes "documind env args = (w, Fulfilled out)"
  obtains llm ext localPath files st where
    "validateLLMParams env (DocumindArgs.llmParams args) = Inr llm"
    "downloadFile env (filePath args) (tempDirectory_of env args) = Inr (ext, Some localPath)"
    "readdir env (tempDirectory_of env args) = Inr files"
    "process env (job_of env args llm) (limit_of args) (pngs files) = (st, Fulfilled ())"
    "out = \<lparr> completionTime = endTime env - startTime env, fileName = fileName_of localPath,
             DocumindOutput.inputTokens = inputTokenCount st,
             DocumindOutput.outputTokens = outputTokenCount st,
             pages = formattedPages (pagesArg_of args) (aggregatedMarkdown st) \<rparr>"
    "adapterCalls w = calls st"
    "callerPages w = map_option sortPages (pagesToConvertAsImages args)"
    "tempDirectoryOnDisk w =
       (if orDefault True (cleanup args) then None else Some (tempDirectory_of env args))"
  using assms
proof (cases rule: documind_reaches_process)
  case early
  then show ?thesis by auto
next
  case (processed llm ext localPath files st pr)
  show ?thesis
  proof (cases pr)
    case Pending
    with processed(10) show ?thesis by simp
  next
    case (Rejected e)
    with processed(10) show ?thesis by simp
  next
    case (Fulfilled u)
    with processed(10) have
      "finish env (orDefault True (cleanup args)) (orDefault [] (outputDir args))
         (pagesArg_of args) (tempDirectory_of env args) (fileName_of localPath)
         ((sortedWorld env args)\<lparr> adapterCalls := calls st \<rparr>) st = (w, Fulfilled out)"
      by simp
    from finish_cases [OF this] processed Fulfilled that [of llm ext localPath files st]
    show ?thesis by (simp add: sortedWorld_def)
  qed
qed

section \<open>The file name of the output\<close>

lemma takeWhile_stem:
  assumes "(46::nat) \<in> set name"
    and "46 \<notin> set (rev (tl (dropWhile (\<lambda>c. c \<noteq> 46) (rev name))))"
  shows "takeWhile (\<lambda>c. c \<noteq> 46) name = rev (tl (dropWhile (\<lambda>c. c \<noteq> 46) (rev name)))"
proof -
  from assms(1) obtain xs ys where name: "name = xs @ 46 # ys" and ys: "46 \<notin> set ys"
    by (auto dest: split_list_last)
  have "x \<noteq> 46" if "x \<in> set (rev ys)" for x
    using that ys by auto
  then have "dropWhile (\<lambda>c. c \<noteq> 46) (rev ys @ 46 # rev xs) =
      dropWhile (\<lambda>c. c \<noteq> 46) (46 # rev xs)"
    by (rule dropWhile_append2)
  then have dw: "dropWhile (\<lambda>c. c \<noteq> 46) (rev ys @ 46 # rev xs) = 46 # rev xs"
    by simp
  with assms(2) have xs: "46 \<notin> set xs" by (simp add: name)
  have "x \<noteq> 46" if "x \<in> set xs" for x
    using that xs by auto
  then have "takeWhile (\<lambda>c. c \<noteq> 46) (xs @ 46 # ys) =
      xs @ takeWhile (\<lambda>c. c \<noteq> 46) (46 # ys)"
    by (rule takeWhile_append2)
  then have "takeWhile (\<lambda>c. c \<noteq> 46) (xs @ 46 # ys) = xs"
    by simp
  with dw show ?thesis by (simp add: name)
qed

lemma takeWhile_first_dot:
  assumes "46 \<notin> set (baseName_spec localPath)"
  shows "takeWhile (\<lambda>c. c \<noteq> 46) (endOfPath localPath) = baseName_spec localPath"
proof (cases "46 \<in> set (endOfPath localPath)")
  case False
  then have "takeWhile (\<lambda>c. c \<noteq> 46) (endOfPath localPath) = endOfPath localPath"
    by (intro takeWhile_eq_all_conv [THEN iffD2]) auto
  with False show ?thesis by (simp add: baseName_spec_def)
next
  case True
  with assms have stem:
    "baseName_spec localPath = rev (tl (dropWhile (\<lambda>c. c \<noteq> 46) (rev (endOfPath localPath))))"
    by (auto simp: baseName_spec_def Let_def split: if_splits)
  from assms have "46 \<notin> set (rev (tl (dropWhile (\<lambda>c. c \<noteq> 46) (rev (endOfPath localPath)))))"
    unfolding stem .
  from takeWhile_stem [OF True this] show ?thesis
    unfolding stem .
qed

text \<open>
  Claim C9, as amended. The file name of a fulfilled run is the sanitised form of the
  last segment of the path of the file the download saved, cut at its first dot: every
  character that is neither a word character nor whitespace dropped, every run of
  whitespace turned into one underscore, lower-cased (\<open>sanitized_spec\<close>) and cut to 255
  code units. It holds only lower-case letters, digits and underscores. When the base
  name of the saved file has no dot, the file name is the sanitised base name. A file
  saved as \<^verbatim>\<open>My Report (v2).pdf\<close> gives \<^verbatim>\<open>my_report_v2\<close>.
\<close>

theorem fileName_sanitized:
  assumes "documind env args = (w, Fulfilled out)"
  shows "\<exists>ext localPath.
           downloadFile env (filePath args) (tempDirectory_of env args) = Inr (ext, Some localPath) \<and>
           fileName out =
             substring0 255
               (sanitized_spec False (takeWhile (\<lambda>c. c \<noteq> 46) (endOfPath localPath))) \<and>
           length (fileName out) \<le> 255 \<and>
           (\<forall>c\<in>set (fileName out). is_lower_word c) \<and>
           (46 \<notin> set (baseName_spec localPath) \<longrightarrow>
              fileName out = substring0 255 (sanitized_spec False (baseName_spec localPath))) \<and>
           (endOfPath localPath = js ''My Report (v2).pdf'' \<longrightarrow> fileName out = js ''my_report_v2'')"
  using assms
proof (cases rule: documind_Fulfilled)
  case (1 llm ext localPath files st)
  have name: "fileName out = fileName_of localPath"
    using 1(5) by simp
  have cut: "fileName_of localPath =
      substring0 255 (sanitized_spec False (takeWhile (\<lambda>c. c \<noteq> 46) (endOfPath localPath)))"
    by (simp add: fileName_of_def sanitized_pipeline rawFileName_takeWhile)
  have len: "length (fileName_of localPath) \<le> 255"
    by (simp add: fileName_of_def substring0_def)
  have base: "fileName_of localPath = substring0 255 (sanitized_spec False (baseName_spec localPath))"
    if "46 \<notin> set (baseName_spec localPath)"
    unfolding cut using takeWhile_first_dot [OF that] by simp
  have "downloadFile env (filePath args) (tempDirectory_of env args) = Inr (ext, Some localPath) \<and>
    fileName out =
      substring0 255 (sanitized_spec False (takeWhile (\<lambda>c. c \<noteq> 46) (endOfPath localPath))) \<and>
    length (fileName out) \<le> 255 \<and>
    (\<forall>c\<in>set (fileName out). is_lower_word c) \<and>
    (46 \<notin> set (baseName_spec localPath) \<longrightarrow>
       fileName out = substring0 255 (sanitized_spec False (baseName_spec localPath))) \<and>
    (endOfPath localPath = js ''My Report (v2).pdf'' \<longrightarrow> fileName out = js ''my_report_v2'')"
    using 1(2) name cut len base fileName_of_chars [of localPath] fileName_of_example [of localPath]
    by auto
  then show ?thesis by blast
qed

theorem fileName_sanitized_witness:
  "\<exists>w out. documind (exampleEnv threePages []) (exampleArgs True 10 None) = (w, Fulfilled out) \<and>
     fileName out = js ''my_report_v2''"
proof -
  let ?env = "exampleEnv threePages [] :: (nat, unit) Env"
  let ?args = "exampleArgs True 10 None"
  have "case snd (documind ?env ?args) of Fulfilled out \<Rightarrow> True | _ \<Rightarrow> False"
    by (simp add: model_defs example_defs)
  then obtain w out where run: "documind ?env ?args = (w, Fulfilled out)"
    by (cases "documind ?env ?args") (auto split: promise.splits)
  from fileName_sanitized [OF run] obtain ext localPath where
    dl: "downloadFile ?env (filePath ?args) (tempDirectory_of ?env ?args) = Inr (ext, Some localPath)"
    and ex: "endOfPath localPath = js ''My Report (v2).pdf'' \<longrightarrow> fileName out = js ''my_report_v2''"
    by blast
  from dl have "endOfPath localPath = js ''My Report (v2).pdf''"
    by (auto simp: exampleEnv_def exampleArgs_def tempDirectory_of_def orDefault_def js_def
        endOfPath_def)
  with ex run show ?thesis by blast
qed

text \<open>
  The claim as stated fails for a name with a dot inside its base name: the code cuts at
  the first dot. A file saved as \<^verbatim>\<open>report.final.pdf\<close> has the base name
  \<^verbatim>\<open>report.final\<close>, whose sanitised form is \<^verbatim>\<open>reportfinal\<close>; the run is fulfilled with
  the file name \<^verbatim>\<open>report\<close>.
\<close>

theorem fileName_first_dot_counterexample:
  "downloadFile dottedEnv (filePath (exampleArgs True 10 None))
     (tempDirectory_of dottedEnv (exampleArgs True 10 None)) =
     Inr (js ''.pdf'', Some (js ''/t/documind-file-1234/report.final.pdf'')) \<and>
   baseName_spec (js ''/t/documind-file-1234/report.final.pdf'') = js ''report.final'' \<and>
   substring0 255 (sanitized_spec False (baseName_spec (js ''/t/documind-file-1234/report.final.pdf''))) =
     js ''reportfinal'' \<and>
   map_option fileName (outputOf (snd (documind dottedEnv (exampleArgs True 10 None)))) =
     Some (js ''report'')"
  by (simp add: model_defs example_defs dottedEnv_def outputOf_def baseName_spec_def endOfPath_def
      rawFileName_def fileName_of_def substring0_def strip_non_word_def is_word_def is_space_def
      to_lower_unit_def toLowerCase_def)

section \<open>The sequential mode\<close>

lemma sequential_calls:
  "calls (fst (sequential env job images st)) = calls st @ requests env job images (priorPage st)"
  by (induction images arbitrary: st) (auto simp: Let_def account_def split: sum.splits)

lemma sequential_error:
  "snd (sequential env job images st) =
     (case requests env job images (priorPage st) of
        [] \<Rightarrow> None
      | a # rest \<Rightarrow> (case getCompletion env (last (a # rest)) of Inl e \<Rightarrow> Some e | Inr r \<Rightarrow> None))"
  by (induction images arbitrary: st) (auto simp: Let_def account_def split: sum.splits list.splits)

lemma sequential_markdown:
  "aggregatedMarkdown (fst (sequential env job images st)) =
     aggregatedMarkdown st @
       map (formatted env) (filter (succeeds env) (requests env job images (priorPage st)))"
  by (induction images arbitrary: st)
    (auto simp: Let_def account_def formatted_def succeeds_def split: sum.splits)

lemma sequential_tokens:
  assumes "inputTokenCount st = Num ci" "outputTokenCount st = Num co"
    and "list_all (integerCounts env) (requests env job images (priorPage st))"
    and "\<bar>ci\<bar> + sum_list (map (\<lambda>a. \<bar>inputReported env a\<bar>)
                    (requests env job images (priorPage st))) < 2 ^ 53"
    and "\<bar>co\<bar> + sum_list (map (\<lambda>a. \<bar>outputReported env a\<bar>)
                    (requests env job images (priorPage st))) < 2 ^ 53"
  shows "inputTokenCount (fst (sequential env job images st)) =
           Num (ci + sum_list (map (inputReported env) (requests env job images (priorPage st)))) \<and>
         outputTokenCount (fst (sequential env job images st)) =
           Num (co + sum_list (map (outputReported env) (requests env job images (priorPage st))))"
  using assms
proof (induction images arbitrary: st ci co)
  case Nil
  then show ?case by simp
next
  case (Cons img rest)
  let ?a = "completionArgs env job img (priorPage st)"
  show ?case
  proof (cases "getCompletion env ?a")
    case (Inl e)
    with Cons.prems(1,2) show ?thesis
      by (simp add: Let_def inputReported_def outputReported_def)
  next
    case (Inr r)
    let ?prior = "formatMarkdown env (CompletionResponse.content r)"
    let ?new = "requests env job rest ?prior"
    let ?st1 = "st\<lparr> calls := calls st @ [?a] \<rparr>"
    let ?st2 = "(account env r ?st1)
                  \<lparr> aggregatedMarkdown := aggregatedMarkdown ?st1 @ [?prior] \<rparr>"
    let ?ti = "inputReported env ?a" and ?to = "outputReported env ?a"
    have req: "requests env job (img # rest) (priorPage st) = ?a # ?new"
      using Inr by simp
    from Cons.prems(3) have int: "integerCounts env ?a" and ints: "list_all (integerCounts env) ?new"
      unfolding req by simp_all
    from int Inr have ti: "CompletionResponse.inputTokens r = Num ?ti"
      and to: "CompletionResponse.outputTokens r = Num ?to"
      by (simp_all add: integerCounts_def inputReported_def outputReported_def is_integer_of)
    have pos: "0 \<le> sum_list (map (\<lambda>a. \<bar>f a\<bar>) ?new)" for f :: "_ \<Rightarrow> int"
      by (rule sum_list_nonneg) auto
    from Cons.prems(4,5) have bi: "\<bar>ci + ?ti\<bar> + sum_list (map (\<lambda>a. \<bar>inputReported env a\<bar>) ?new) < 2 ^ 53"
      and bo: "\<bar>co + ?to\<bar> + sum_list (map (\<lambda>a. \<bar>outputReported env a\<bar>) ?new) < 2 ^ 53"
      unfolding req by simp_all
    from bi bo pos [of "inputReported env"] pos [of "outputReported env"]
    have "\<bar>ci + ?ti\<bar> < 2 ^ 53" "\<bar>co + ?to\<bar> < 2 ^ 53" by linarith+
    then have c2: "inputTokenCount ?st2 = Num (ci + ?ti)" "outputTokenCount ?st2 = Num (co + ?to)"
      using Cons.prems(1,2) ti to by (simp_all add: account_def to_number_safe)
    have p2: "priorPage ?st2 = ?prior" by (simp add: account_def)
    have seq: "sequential env job (img # rest) st = sequential env job rest ?st2"
      using Inr by (simp add: Let_def)
    from Cons.IH [of ?st2 "ci + ?ti" "co + ?to"] c2 ints bi bo
    show ?thesis
      unfolding seq req p2 by simp
  qed
qed

lemma requests_threaded: "threaded env prior (requests env job images prior)"
  by (induction images arbitrary: prior) (auto simp: completionArgs_def split: sum.splits)

lemma requests_length: "length (requests env job images prior) \<le> length images"
  by (induction images arbitrary: prior) (auto split: sum.splits)

lemma requests_units:
  "i < length (requests env job images prior) \<Longrightarrow>
     requests env job images prior ! i =
       completionArgs env job (images ! i) (CompletionArgs.priorPage (requests env job images prior ! i))"
proof (induction images arbitrary: prior i)
  case Nil
  then show ?case by simp
next
  case (Cons img rest)
  then show ?case
    by (cases i) (auto simp: completionArgs_def split: sum.splits)
qed

lemma requests_complete:
  "\<forall>a\<in>set (requests env job images prior). succeeds env a \<Longrightarrow>
     length (requests env job images prior) = length images"
  by (induction images arbitrary: prior) (auto simp: succeeds_def split: sum.splits)

lemma threaded_nth:
  "threaded env prior new \<Longrightarrow> i < length new \<Longrightarrow>
     CompletionArgs.priorPage (new ! i) = (if i = 0 then prior else formatted env (new ! (i - 1))) \<and>
     (0 < i \<longrightarrow> succeeds env (new ! (i - 1)))"
proof (induction new arbitrary: prior i)
  case Nil
  then show ?case by simp
next
  case (Cons a rest)
  show ?case
  proof (cases i)
    case 0
    with Cons.prems show ?thesis by simp
  next
    case (Suc j)
    with Cons.prems obtain r where r: "getCompletion env a = Inr r"
      and rest: "threaded env (formatMarkdown env (CompletionResponse.content r)) rest"
      by (auto split: sum.splits)
    from Cons.IH [OF rest, of j] Suc Cons.prems r show ?thesis
      by (cases j) (auto simp: formatted_def succeeds_def)
  qed
qed

lemma threaded_failure_last:
  "threaded env prior new \<Longrightarrow> k < length new \<Longrightarrow> \<not> succeeds env (new ! k) \<Longrightarrow>
     Suc k = length new"
proof (induction new arbitrary: prior k)
  case Nil
  then show ?case by simp
next
  case (Cons a rest)
  then show ?case
    by (cases k) (auto simp: succeeds_def split: sum.splits)
qed


lemma last_at: "Suc k = length xs \<Longrightarrow> last xs = xs ! k \<and> xs \<noteq> []"
  by (cases xs rule: rev_cases) (auto simp: nth_append)

lemma process_sequential:
  assumes "job_maintainFormat job"
  shows "process env job limit images =
           (fst (sequential env job images initialState),
            (case snd (sequential env job images initialState) of
               Some e \<Rightarrow> Rejected (Raised e)
             | None \<Rightarrow> Fulfilled ()))"
  using assms by (simp add: process_def split: prod.splits option.splits)

lemma formattedPages_length: "length (formattedPages pagesArg markdown) = length markdown"
  by (simp add: formattedPages_def)

lemma formattedPages_nth:
  "i < length markdown \<Longrightarrow>
     formattedPages pagesArg markdown ! i =
       \<lparr> Page.content = markdown ! i, contentLength = length (markdown ! i),
         page = pageNumber pagesArg i \<rparr>"
  by (simp add: formattedPages_def)

text \<open>What a run in the sequential mode leaves in the log of adapter calls.\<close>

lemma documind_sequential:
  assumes mode: "DocumindArgs.maintainFormat args = Some True"
    and run: "documind env args = (w, res)"
    and calls: "adapterCalls w \<noteq> []"
  obtains llm files where
    "validateLLMParams env (DocumindArgs.llmParams args) = Inr llm"
    "readdir env (tempDirectory_of env args) = Inr files"
    "adapterCalls w = requests env (job_of env args llm) (pngs files) []"
    "\<And>e. snd (sequential env (job_of env args llm) (pngs files) initialState) = Some e \<Longrightarrow>
       res = Rejected (Raised e)"
    "\<And>out. res = Fulfilled out \<Longrightarrow>
       snd (sequential env (job_of env args llm) (pngs files) initialState) = None \<and>
       pages out = formattedPages (pagesArg_of args)
         (map (formatted env) (filter (succeeds env) (adapterCalls w)))"
  using run
proof (cases rule: documind_reaches_process)
  case early
  with calls show ?thesis by simp
next
  case (processed llm ext localPath files st pr)
  let ?job = "job_of env args llm"
  let ?seq = "sequential env ?job (pngs files) initialState"
  have "job_maintainFormat ?job"
    using mode by (simp add: job_of_def orDefault_def)
  from process_sequential [OF this, of env "limit_of args" "pngs files"] processed(9)
  have st: "st = fst ?seq"
    and pr: "pr = (case snd ?seq of Some e \<Rightarrow> Rejected (Raised e) | None \<Rightarrow> Fulfilled ())"
    by simp_all
  have log: "calls st = requests env ?job (pngs files) []"
    unfolding st by (simp add: sequential_calls initialState_def)
  have md: "aggregatedMarkdown st = map (formatted env) (filter (succeeds env) (calls st))"
    unfolding log unfolding st by (simp add: sequential_markdown initialState_def)
  show ?thesis
  proof (cases "snd ?seq")
    case None
    with pr have "pr = Fulfilled ()" by simp
    with processed(10) have fin:
      "finish env (orDefault True (cleanup args)) (orDefault [] (outputDir args))
         (pagesArg_of args) (tempDirectory_of env args) (fileName_of localPath)
         ((sortedWorld env args)\<lparr> adapterCalls := calls st \<rparr>) st = (w, res)"
      by simp
    from finish_cases [OF fin] have w: "adapterCalls w = calls st"
      and out: "\<And>out. res = Fulfilled out \<Longrightarrow> pages out = formattedPages (pagesArg_of args) (aggregatedMarkdown st)"
      by auto
    show ?thesis
      using that [of llm files] processed(1,8) w log None out md by simp
  next
    case (Some e)
    with pr have "pr = Rejected (Raised e)" by simp
    with processed(10) have "adapterCalls w = calls st" "res = Rejected (Raised e)"
      by simp_all
    then show ?thesis
      using that [of llm files] processed(1,8) log Some by simp
  qed
qed

text \<open>
  Claim C5. In the maintain-format mode the calls are made in the order of the images,
  call \<open>i\<close> for image \<open>i\<close>. The first call is given the empty string as prior page,
  and every later call \<open>i\<close> is given exactly the formatted markdown of the response to
  call \<open>i - 1\<close>, which in a fulfilled run is the content of page \<open>i - 1\<close> of the output.
\<close>

theorem prior_page_threading:
  assumes "DocumindArgs.maintainFormat args = Some True"
    and "documind env args = (w, res)"
    and "i < length (adapterCalls w)"
  shows "(\<exists>files. readdir env (tempDirectory_of env args) = Inr files \<and> i < length (pngs files) \<and>
            imagePath (adapterCalls w ! i) = path_join env (tempDirectory_of env args) (pngs files ! i)) \<and>
         (i = 0 \<longrightarrow> CompletionArgs.priorPage (adapterCalls w ! i) = []) \<and>
         (0 < i \<longrightarrow>
            (\<exists>r. getCompletion env (adapterCalls w ! (i - 1)) = Inr r \<and>
               CompletionArgs.priorPage (adapterCalls w ! i) =
                 formatMarkdown env (CompletionResponse.content r))) \<and>
         (\<forall>out. res = Fulfilled out \<longrightarrow>
            length (pages out) = length (adapterCalls w) \<and>
            (0 < i \<longrightarrow>
               CompletionArgs.priorPage (adapterCalls w ! i) = Page.content (pages out ! (i - 1))))"
proof -
  from assms(3) have "adapterCalls w \<noteq> []" by auto
  with assms(1,2) show ?thesis
  proof (cases rule: documind_sequential)
    case (1 llm files)
    let ?job = "job_of env args llm"
    let ?new = "requests env ?job (pngs files) []"
    have i: "i < length ?new" using assms(3) 1(3) by simp
    have thr: "threaded env [] ?new" by (rule requests_threaded)
    note nth = threaded_nth [OF thr i]
    have unit: "?new ! i = completionArgs env ?job (pngs files ! i) (CompletionArgs.priorPage (?new ! i))"
      using i by (rule requests_units)
    have "i < length (pngs files)"
      using i requests_length [of env ?job "pngs files" "[]"] by simp
    moreover have "imagePath (?new ! i) = path_join env (tempDirectory_of env args) (pngs files ! i)"
      by (subst unit) (simp add: completionArgs_def job_of_def)
    ultimately have part1:
      "\<exists>files. readdir env (tempDirectory_of env args) = Inr files \<and> i < length (pngs files) \<and>
         imagePath (adapterCalls w ! i) = path_join env (tempDirectory_of env args) (pngs files ! i)"
      using 1(2,3) by auto
    have part2: "i = 0 \<longrightarrow> CompletionArgs.priorPage (adapterCalls w ! i) = []"
      using nth 1(3) by auto
    have part3: "0 < i \<longrightarrow>
            (\<exists>r. getCompletion env (adapterCalls w ! (i - 1)) = Inr r \<and>
               CompletionArgs.priorPage (adapterCalls w ! i) =
                 formatMarkdown env (CompletionResponse.content r))"
      using nth 1(3) by (auto simp: succeeds_def formatted_def split: sum.splits)
    have part4: "length (pages out) = length (adapterCalls w) \<and>
            (0 < i \<longrightarrow>
               CompletionArgs.priorPage (adapterCalls w ! i) = Page.content (pages out ! (i - 1)))"
      if res: "res = Fulfilled out" for out
    proof -
      from 1(5) [OF res] have none: "snd (sequential env ?job (pngs files) initialState) = None"
        and pg: "pages out = formattedPages (pagesArg_of args)
           (map (formatted env) (filter (succeeds env) (adapterCalls w)))"
        by simp_all
      have all: "\<forall>a\<in>set ?new. succeeds env a"
      proof
        fix a assume "a \<in> set ?new"
        then obtain k where k: "k < length ?new" "?new ! k = a"
          by (auto simp: in_set_conv_nth)
        show "succeeds env a"
        proof (rule ccontr)
          assume bad: "\<not> succeeds env a"
          with threaded_failure_last [OF thr k(1)] k(2) have "Suc k = length ?new" by simp
          from last_at [OF this] k(2) have "last ?new = a" "?new \<noteq> []" by simp_all
          with none bad show False
            by (auto simp: sequential_error initialState_def succeeds_def
                split: list.splits sum.splits)
        qed
      qed
      then have "filter (succeeds env) (adapterCalls w) = adapterCalls w"
        using 1(3) by simp
      with pg have pg': "pages out = formattedPages (pagesArg_of args) (map (formatted env) (adapterCalls w))"
        by simp
      then show ?thesis
        using nth 1(3) i by (auto simp: formattedPages_length formattedPages_nth)
    qed
    from part1 part2 part3 part4 show ?thesis by blast
  qed
qed

theorem prior_page_threading_witness:
  "\<exists>w out. documind (exampleEnv threePages []) (exampleArgs True 10 None) = (w, Fulfilled out) \<and>
     length (adapterCalls w) = 3 \<and>
     CompletionArgs.priorPage (adapterCalls w ! 0) = [] \<and>
     CompletionArgs.priorPage (adapterCalls w ! 1) = Page.content (pages out ! 0) \<and>
     CompletionArgs.priorPage (adapterCalls w ! 2) = Page.content (pages out ! 1)"
proof -
  let ?env = "exampleEnv threePages [] :: (nat, unit) Env"
  let ?args = "exampleArgs True 10 None"
  obtain w res where run: "documind ?env ?args = (w, res)"
    by (cases "documind ?env ?args")
  have "case snd (documind ?env ?args) of Fulfilled out \<Rightarrow> True | _ \<Rightarrow> False"
    by (simp add: model_defs example_defs)
  with run obtain out where res: "res = Fulfilled out"
    by (auto split: promise.splits)
  have mode: "DocumindArgs.maintainFormat ?args = Some True"
    by (simp add: exampleArgs_def)
  have "length (adapterCalls (fst (documind ?env ?args))) = 3"
    by (simp add: model_defs example_defs)
  with run have len: "length (adapterCalls w) = 3" by simp
  from prior_page_threading [OF mode run, of 0] prior_page_threading [OF mode run, of 1]
    prior_page_threading [OF mode run, of 2] len res run
  show ?thesis by auto
qed

text \<open>
  Claim C6. In the maintain-format mode, when the adapter call for work unit \<open>k\<close> fails
  with \<open>e\<close>, it is the last call of the run (no later unit is dispatched) and the run is
  rejected with \<open>e\<close> itself.
\<close>

theorem sequential_fail_fast:
  assumes "DocumindArgs.maintainFormat args = Some True"
    and "documind env args = (w, res)"
    and "k < length (adapterCalls w)"
    and "getCompletion env (adapterCalls w ! k) = Inl e"
  shows "length (adapterCalls w) = Suc k \<and> res = Rejected (Raised e) \<and>
         (\<exists>files. readdir env (tempDirectory_of env args) = Inr files \<and> k < length (pngs files) \<and>
            imagePath (adapterCalls w ! k) = path_join env (tempDirectory_of env args) (pngs files ! k))"
proof -
  from assms(3) have "adapterCalls w \<noteq> []" by auto
  with assms(1,2) show ?thesis
  proof (cases rule: documind_sequential)
    case (1 llm files)
    let ?job = "job_of env args llm"
    let ?new = "requests env ?job (pngs files) []"
    have k: "k < length ?new" using assms(3) 1(3) by simp
    have thr: "threaded env [] ?new" by (rule requests_threaded)
    have bad: "\<not> succeeds env (?new ! k)"
      using assms(4) 1(3) by (simp add: succeeds_def)
    from threaded_failure_last [OF thr k bad] have len: "Suc k = length ?new" .
    from last_at [OF len] assms(4) 1(3) have "snd (sequential env ?job (pngs files) initialState) = Some e"
      by (auto simp: sequential_error initialState_def split: list.splits)
    from 1(4) [OF this] have res: "res = Rejected (Raised e)" .
    have unit: "?new ! k = completionArgs env ?job (pngs files ! k) (CompletionArgs.priorPage (?new ! k))"
      using k by (rule requests_units)
    have "k < length (pngs files)"
      using k requests_length [of env ?job "pngs files" "[]"] by simp
    moreover have "imagePath (?new ! k) = path_join env (tempDirectory_of env args) (pngs files ! k)"
      by (subst unit) (simp add: completionArgs_def job_of_def)
    ultimately show ?thesis
      using len res 1(2,3) by auto
  qed
qed


theorem sequential_fail_fast_witness:
  "\<exists>w. documind (exampleEnv fivePagesSecondBad []) (exampleArgs True 10 None) =
          (w, Rejected (Raised 404)) \<and>
        length (adapterCalls w) = 2"
proof -
  let ?env = "exampleEnv fivePagesSecondBad [] :: (nat, unit) Env"
  let ?args = "exampleArgs True 10 None"
  obtain w res where run: "documind ?env ?args = (w, res)"
    by (cases "documind ?env ?args")
  have mode: "DocumindArgs.maintainFormat ?args = Some True"
    by (simp add: exampleArgs_def)
  have "1 < length (adapterCalls (fst (documind ?env ?args))) \<and>
        getCompletion ?env (adapterCalls (fst (documind ?env ?args)) ! 1) = Inl 404"
    by (simp add: model_defs example_defs)
  with run have "1 < length (adapterCalls w)" "getCompletion ?env (adapterCalls w ! 1) = Inl 404"
    by simp_all
  from sequential_fail_fast [OF mode run this] run show ?thesis by simp
qed


section \<open>The parallel mode\<close>

lemma finite_finished: "finite (finished st)"
  by (simp add: finished_def)

lemma array_set_length: "length (array_set xs i v) = max (length xs) (Suc i)"
  by (auto simp: array_set_def)

lemma array_set_same: "array_set xs i v ! i = Some v"
  by (auto simp: array_set_def nth_append)

lemma array_set_other: "j \<noteq> i \<Longrightarrow> j < length xs \<Longrightarrow> array_set xs i v ! j = xs ! j"
  by (auto simp: array_set_def nth_append)

lemma start_next_empty: "queue st = [] \<Longrightarrow> start_next env job st = st"
  by (simp add: start_next_def)

lemma start_next_Cons:
  "queue st = (i, img) # waiting \<Longrightarrow>
     start_next env job st =
       st\<lparr> calls := calls st @ [completionArgs env job img (priorPage st)],
           queue := waiting,
           active := active st @ [(i, completionArgs env job img (priorPage st))] \<rparr>"
  by (simp add: start_next_def Let_def)

lemma queue_head:
  assumes "inv_dispatch env job images st" "queue st = (i, img) # waiting"
  shows "i = length (calls st) \<and> i < length images \<and> img = images ! i \<and>
         waiting = drop (Suc i) (zip [0..<length images] images)"
proof -
  let ?d = "length (calls st)"
  let ?z = "zip [0..<length images] images"
  from assms have q: "drop ?d ?z = (i, img) # waiting"
    by (simp add: inv_dispatch_def)
  then have d: "?d < length ?z"
    by (cases "?d < length ?z") auto
  then have "drop ?d ?z = ?z ! ?d # drop (Suc ?d) ?z"
    by (rule Cons_nth_drop_Suc [symmetric])
  with q d show ?thesis by auto
qed

lemma start_next_finished:
  assumes "inv_dispatch env job images st"
  shows "finished (start_next env job st) = finished st"
proof (cases "queue st")
  case Nil
  then show ?thesis by (simp add: start_next_empty)
next
  case (Cons t waiting)
  obtain i img where t: "t = (i, img)" by (cases t)
  from queue_head [OF assms Cons [unfolded t]] have i: "i = length (calls st)" by simp
  from assms have "\<forall>t\<in>set (active st). fst t < length (calls st)"
    by (simp add: inv_dispatch_def)
  then show ?thesis
    unfolding start_next_Cons [OF Cons [unfolded t]] finished_def
    using i by (auto simp: less_Suc_eq)
qed

lemma start_next_calls_nth:
  "i < length (calls st) \<Longrightarrow> calls (start_next env job st) ! i = calls st ! i"
  by (cases "queue st") (auto simp: start_next_def Let_def nth_append)

lemma start_next_fields:
  "results (start_next env job st) = results st"
  "rejection (start_next env job st) = rejection st"
  "inputTokenCount (start_next env job st) = inputTokenCount st"
  "outputTokenCount (start_next env job st) = outputTokenCount st"
  "priorPage (start_next env job st) = priorPage st"
  "aggregatedMarkdown (start_next env job st) = aggregatedMarkdown st"
  "length (calls st) \<le> length (calls (start_next env job st))"
  by (cases "queue st"; auto simp: start_next_def Let_def)+

lemma start_next_dispatch:
  assumes "inv_dispatch env job images st"
  shows "inv_dispatch env job images (start_next env job st)"
proof (cases "queue st")
  case Nil
  with assms show ?thesis by (simp add: start_next_empty)
next
  case (Cons t waiting)
  obtain i img where t: "t = (i, img)" by (cases t)
  note q = Cons [unfolded t]
  from queue_head [OF assms q] have i: "i = length (calls st)" "i < length images"
    "img = images ! i" "waiting = drop (Suc i) (zip [0..<length images] images)"
    by simp_all
  from assms have act: "\<forall>t\<in>set (active st). fst t < length (calls st) \<and> snd t = calls st ! fst t"
    and dis: "distinct (map fst (active st))"
    and old: "\<forall>j<length (calls st).
        calls st ! j = completionArgs env job (images ! j) (CompletionArgs.priorPage (calls st ! j))"
    by (simp_all add: inv_dispatch_def)
  have fresh: "i \<notin> fst ` set (active st)"
    using act i(1) by auto
  show ?thesis
    unfolding start_next_Cons [OF q] inv_dispatch_def
    using i act dis old fresh
    by (auto simp: nth_append less_Suc_eq completionArgs_def)
qed

lemma start_next_results:
  assumes "inv_dispatch env job images st" "inv_results env st"
  shows "inv_results env (start_next env job st)"
proof -
  have "i < length (calls st)" if "i \<in> finished st" for i
    using that by (simp add: finished_def)
  with assms(2) show ?thesis
    unfolding inv_results_def start_next_finished [OF assms(1)] start_next_fields
    using start_next_fields(7) [of st env job]
    by (auto simp: start_next_calls_nth)
qed

lemma start_next_rejection:
  assumes "inv_dispatch env job images st" "inv_rejection env st"
  shows "inv_rejection env (start_next env job st)"
proof -
  have "i < length (calls st)" if "i \<in> finished st" for i
    using that by (simp add: finished_def)
  with assms(2) show ?thesis
    unfolding inv_rejection_def start_next_finished [OF assms(1)] start_next_fields
    by (auto simp: start_next_calls_nth)
qed

lemma start_next_tokens:
  assumes "inv_dispatch env job images st" "inv_tokens env st"
  shows "inv_tokens env (start_next env job st)"
proof -
  have "i < length (calls st)" if "i \<in> finished st" for i
    using that by (simp add: finished_def)
  then have same: "(\<Sum>i\<in>finished st. f (calls (start_next env job st) ! i)) =
      (\<Sum>i\<in>finished st. f (calls st ! i))" for f :: "_ \<Rightarrow> int"
    by (intro sum.cong) (simp_all add: start_next_calls_nth)
  obtain cs where "calls (start_next env job st) = calls st @ cs"
    by (cases "queue st") (auto simp: start_next_def Let_def)
  then have "safeCounts env (calls st)" if "safeCounts env (calls (start_next env job st))"
    using that safeCounts_append [of env "calls st" cs] by simp
  with assms(2) show ?thesis
    unfolding inv_tokens_def start_next_finished [OF assms(1)] start_next_fields same
    by simp
qed


text \<open>The task of unit k leaves the running tasks and its page resumes.\<close>

lemma resume_fields:
  "calls (resume env k args st) = calls st"
  "queue (resume env k args st) = queue st"
  "active (resume env k args st) = active st"
  "finished (resume env k args st) = finished st"
  by (auto simp: resume_def account_def finished_def split: sum.splits)

lemma resume_failure:
  "getCompletion env args = Inl e \<Longrightarrow>
     results (resume env k args st) = results st \<and>
     inputTokenCount (resume env k args st) = inputTokenCount st \<and>
     outputTokenCount (resume env k args st) = outputTokenCount st \<and>
     rejection (resume env k args st) = (case rejection st of None \<Rightarrow> Some e | Some e0 \<Rightarrow> Some e0)"
  by (simp add: resume_def)

lemma resume_success:
  "getCompletion env args = Inr r \<Longrightarrow>
     results (resume env k args st) =
       array_set (results st) k (formatMarkdown env (CompletionResponse.content r)) \<and>
     inputTokenCount (resume env k args st) =
       js_add (inputTokenCount st) (CompletionResponse.inputTokens r) \<and>
     outputTokenCount (resume env k args st) =
       js_add (outputTokenCount st) (CompletionResponse.outputTokens r) \<and>
     rejection (resume env k args st) = rejection st"
  by (simp add: resume_def account_def)

lemma leave_finished:
  assumes "inv_dispatch env job images st" "map_of (active st) k = Some args"
  shows "finished (st\<lparr> active := filter (\<lambda>t. fst t \<noteq> k) (active st) \<rparr>) = insert k (finished st)"
    and "k \<notin> finished st" and "k < length (calls st)" and "args = calls st ! k"
proof -
  from assms(2) have mem: "(k, args) \<in> set (active st)" by (rule map_of_SomeD)
  with assms(1) show k: "k < length (calls st)" and "args = calls st ! k"
    by (auto simp: inv_dispatch_def)
  from mem show "k \<notin> finished st" by (force simp: finished_def)
  show "finished (st\<lparr> active := filter (\<lambda>t. fst t \<noteq> k) (active st) \<rparr>) = insert k (finished st)"
    using k by (auto simp: finished_def)
qed

lemma leave_dispatch:
  assumes "inv_dispatch env job images st"
  shows "inv_dispatch env job images
           (resume env k args (st\<lparr> active := filter (\<lambda>t. fst t \<noteq> k) (active st) \<rparr>))"
  using assms by (auto simp: inv_dispatch_def resume_fields distinct_map_filter)

lemma leave_results:
  assumes d: "inv_dispatch env job images st" and a: "map_of (active st) k = Some args"
    and r: "inv_results env st"
  shows "inv_results env (resume env k args (st\<lparr> active := filter (\<lambda>t. fst t \<noteq> k) (active st) \<rparr>))"
proof -
  let ?st1 = "st\<lparr> active := filter (\<lambda>t. fst t \<noteq> k) (active st) \<rparr>"
  note lf = leave_finished [OF d a]
  from r have len: "length (results st) \<le> length (calls st)"
    and old: "\<And>i. i \<in> finished st \<Longrightarrow> succeeds env (calls st ! i) \<Longrightarrow>
        i < length (results st) \<and> results st ! i = Some (formatted env (calls st ! i))"
    by (auto simp: inv_results_def)
  show ?thesis
  proof (cases "getCompletion env args")
    case (Inl e)
    then have "\<not> succeeds env (calls st ! k)"
      using lf(4) by (simp add: succeeds_def)
    with len old show ?thesis
      unfolding inv_results_def resume_fields lf(1)
      using resume_failure [OF Inl, of k ?st1] by auto
  next
    case (Inr resp)
    have fmt: "formatMarkdown env (CompletionResponse.content resp) = formatted env (calls st ! k)"
      using Inr lf(4) by (simp add: formatted_def)
    have res: "results (resume env k args ?st1) = array_set (results st) k (formatted env (calls st ! k))"
      using resume_success [OF Inr, of k ?st1] fmt by simp
    have calls1: "calls (resume env k args ?st1) = calls st"
      by (simp add: resume_fields)
    have fin1: "finished (resume env k args ?st1) = insert k (finished st)"
      by (simp add: resume_fields lf(1))
    have A: "length (array_set (results st) k (formatted env (calls st ! k))) \<le> length (calls st)"
      using len lf(3) by (simp add: array_set_length)
    have B: "i < length (array_set (results st) k (formatted env (calls st ! k))) \<and>
             array_set (results st) k (formatted env (calls st ! k)) ! i =
               Some (formatted env (calls st ! i))"
      if i: "i \<in> insert k (finished st)" and s: "succeeds env (calls st ! i)" for i
    proof (cases "i = k")
      case True
      then show ?thesis by (simp add: array_set_same array_set_length)
    next
      case False
      with i s old [of i] show ?thesis by (auto simp: array_set_other array_set_length)
    qed
    show ?thesis
      unfolding inv_results_def calls1 fin1 res using A B by blast
  qed
qed

lemma leave_rejection:
  assumes d: "inv_dispatch env job images st" and a: "map_of (active st) k = Some args"
    and r: "inv_rejection env st"
  shows "inv_rejection env (resume env k args (st\<lparr> active := filter (\<lambda>t. fst t \<noteq> k) (active st) \<rparr>))"
proof -
  let ?st1 = "st\<lparr> active := filter (\<lambda>t. fst t \<noteq> k) (active st) \<rparr>"
  note lf = leave_finished [OF d a]
  show ?thesis
  proof (cases "getCompletion env args")
    case (Inl e)
    from r show ?thesis
      unfolding inv_rejection_def resume_fields lf(1)
      using resume_failure [OF Inl, of k ?st1] Inl lf(4)
      by (auto split: option.splits)
  next
    case (Inr resp)
    then have "succeeds env (calls st ! k)"
      using lf(4) by (simp add: succeeds_def)
    with r show ?thesis
      unfolding inv_rejection_def resume_fields lf(1)
      using resume_success [OF Inr, of k ?st1]
      by auto
  qed
qed

lemma leave_tokens:
  assumes d: "inv_dispatch env job images st" and a: "map_of (active st) k = Some args"
    and r: "inv_tokens env st"
  shows "inv_tokens env (resume env k args (st\<lparr> active := filter (\<lambda>t. fst t \<noteq> k) (active st) \<rparr>))"
proof -
  let ?st1 = "st\<lparr> active := filter (\<lambda>t. fst t \<noteq> k) (active st) \<rparr>"
  note lf = leave_finished [OF d a]
  have fin: "finite (finished st)" by (rule finite_finished)
  show ?thesis
  proof (cases "getCompletion env args")
    case (Inl e)
    then have "inputReported env (calls st ! k) = 0" "outputReported env (calls st ! k) = 0"
      using lf(4) by (simp_all add: inputReported_def outputReported_def)
    with r show ?thesis
      unfolding inv_tokens_def resume_fields lf(1)
      using resume_failure [OF Inl, of k ?st1] fin lf(2)
      by simp
  next
    case (Inr resp)
    let ?ti = "inputReported env (calls st ! k)" and ?to = "outputReported env (calls st ! k)"
    let ?si = "\<Sum>i\<in>finished st. inputReported env (calls st ! i)"
    let ?so = "\<Sum>i\<in>finished st. outputReported env (calls st ! i)"
    have "safeCounts env (calls st) \<longrightarrow>
        inputTokenCount (resume env k args ?st1) =
          Num (\<Sum>i\<in>insert k (finished st). inputReported env (calls st ! i)) \<and>
        outputTokenCount (resume env k args ?st1) =
          Num (\<Sum>i\<in>insert k (finished st). outputReported env (calls st ! i))"
    proof
      assume safe: "safeCounts env (calls st)"
      with r have old: "inputTokenCount st = Num ?si" "outputTokenCount st = Num ?so"
        by (simp_all add: inv_tokens_def)
      from safe lf(3) have "integerCounts env (calls st ! k)"
        by (simp add: safeCounts_def list_all_length)
      with Inr lf(4) have ti: "CompletionResponse.inputTokens resp = Num ?ti"
        and to: "CompletionResponse.outputTokens resp = Num ?to"
        by (simp_all add: integerCounts_def inputReported_def outputReported_def is_integer_of)
      have sub: "insert k (finished st) \<subseteq> {0..<length (calls st)}"
        using lf(3) by (auto simp: finished_def)
      have ins: "(\<Sum>i\<in>insert k (finished st). f (calls st ! i)) =
          (\<Sum>i\<in>finished st. f (calls st ! i)) + f (calls st ! k)" for f :: "_ \<Rightarrow> int"
        using fin lf(2) by simp
      from abs_sum_nth_le [OF sub, of "inputReported env"]
        abs_sum_nth_le [OF sub, of "outputReported env"] safe
      have "\<bar>?si + ?ti\<bar> < 2 ^ 53" "\<bar>?so + ?to\<bar> < 2 ^ 53"
        unfolding ins by (simp_all add: safeCounts_def)
      then have "js_add (Num ?si) (Num ?ti) = Num (?si + ?ti)"
        "js_add (Num ?so) (Num ?to) = Num (?so + ?to)"
        by (simp_all add: to_number_safe)
      with old ti to resume_success [OF Inr, of k ?st1]
      show "inputTokenCount (resume env k args ?st1) =
          Num (\<Sum>i\<in>insert k (finished st). inputReported env (calls st ! i)) \<and>
        outputTokenCount (resume env k args ?st1) =
          Num (\<Sum>i\<in>insert k (finished st). outputReported env (calls st ! i))"
        unfolding ins by simp
    qed
    then show ?thesis
      by (simp add: inv_tokens_def resume_fields lf(1))
  qed
qed

text \<open>All four invariants together, along a whole run.\<close>

lemma par_inv_start_next: "par_inv env job images st \<Longrightarrow> par_inv env job images (start_next env job st)"
  by (auto simp: par_inv_def
      intro: start_next_dispatch start_next_results start_next_rejection start_next_tokens)

lemma par_inv_try_start: "par_inv env job images st \<Longrightarrow> par_inv env job images (try_start env job limit st)"
  by (simp add: try_start_def par_inv_start_next)

lemma par_inv_finish_call: "par_inv env job images st \<Longrightarrow> par_inv env job images (finish_call env job k st)"
proof (cases "map_of (active st) k")
  case None
  then show "par_inv env job images st \<Longrightarrow> ?thesis"
    by (simp add: finish_call_def)
next
  case (Some args)
  assume "par_inv env job images st"
  then have "par_inv env job images
               (resume env k args (st\<lparr> active := filter (\<lambda>t. fst t \<noteq> k) (active st) \<rparr>))"
    unfolding par_inv_def
    using leave_dispatch [of env job images st k args] leave_results [OF _ Some, of env job images]
      leave_rejection [OF _ Some, of env job images] leave_tokens [OF _ Some, of env job images]
    by blast
  then show ?thesis
    using Some by (simp add: finish_call_def par_inv_start_next)
qed

lemma par_inv_init: "par_inv env job images (par_init images initialState)"
  by (simp add: par_inv_def inv_dispatch_def inv_results_def inv_rejection_def inv_tokens_def
      finished_def par_init_def initialState_def ParState.defs RunState.defs)

lemma par_inv_fold_try: "par_inv env job images st \<Longrightarrow> par_inv env job images (fold (\<lambda>_. try_start env job limit) xs st)"
  by (induction xs arbitrary: st) (simp_all add: par_inv_try_start)

lemma par_inv_fold_finish: "par_inv env job images st \<Longrightarrow> par_inv env job images (fold (finish_call env job) order st)"
  by (induction order arbitrary: st) (simp_all add: par_inv_finish_call)

lemma par_inv_final: "par_inv env job images (par_final env job limit images order initialState)"
  unfolding par_final_def
  by (intro par_inv_fold_finish par_inv_fold_try par_inv_init)


lemma par_markdown_untouched:
  fixes env :: "('e, 'p) Env"
  shows "aggregatedMarkdown (par_final env job limit images order initialState) = []"
proof -
  have s1: "aggregatedMarkdown (start_next env job st) = aggregatedMarkdown st"
    for st :: "('e, 'p) ParState"
    by (rule start_next_fields)
  have s2: "aggregatedMarkdown (try_start env job limit st) = aggregatedMarkdown st"
    for st :: "('e, 'p) ParState"
    by (simp add: try_start_def s1)
  have s3: "aggregatedMarkdown (finish_call env job k st) = aggregatedMarkdown st"
    for k and st :: "('e, 'p) ParState"
    by (simp add: finish_call_def s1 resume_def account_def split: option.splits sum.splits)
  have f1: "aggregatedMarkdown (fold (\<lambda>_. try_start env job limit) xs st) = aggregatedMarkdown st"
    for xs :: "jsstring list" and st :: "('e, 'p) ParState"
    by (induction xs arbitrary: st) (simp_all add: s2)
  have f2: "aggregatedMarkdown (fold (finish_call env job) ks st) = aggregatedMarkdown st"
    for ks and st :: "('e, 'p) ParState"
    by (induction ks arbitrary: st) (simp_all add: s3)
  show ?thesis
    by (simp add: par_final_def f1 f2 par_init_def initialState_def ParState.defs RunState.defs)
qed

lemma sum_finished_all:
  assumes "finished st = {0..<length (calls st)}"
  shows "(\<Sum>i\<in>finished st. f (calls st ! i)) = sum_list (map f (calls st))"
proof -
  have "sum_list (map f (calls st)) = (\<Sum>i = 0..<length (map f (calls st)). map f (calls st) ! i)"
    by (rule sum_list_sum_nth)
  also have "\<dots> = (\<Sum>i = 0..<length (calls st). f (calls st ! i))"
    by (rule sum.cong) simp_all
  finally show ?thesis using assms by simp
qed

text \<open>A fulfilled \<^verbatim>\<open>Promise.all\<close>: every unit was dispatched and has succeeded.\<close>

lemma par_fulfilled:
  assumes st: "st = par_final env job limit images order initialState"
    and ful: "settled st = Fulfilled slots"
  shows "length (calls st) = length images"
    and "\<forall>a\<in>set (calls st). succeeds env a"
    and "\<forall>i<length images. calls st ! i =
           completionArgs env job (images ! i) (CompletionArgs.priorPage (calls st ! i))"
    and "slots = map (\<lambda>a. Some (formatted env a)) (calls st)"
    and "safeCounts env (calls st) \<longrightarrow>
           inputTokenCount st = Num (sum_list (map (inputReported env) (calls st))) \<and>
           outputTokenCount st = Num (sum_list (map (outputReported env) (calls st)))"
proof -
  have inv: "par_inv env job images st"
    unfolding st by (rule par_inv_final)
  from ful have rej: "rejection st = None" and q: "queue st = []" and a: "active st = []"
    and slots: "slots = results st"
    by (auto simp: settled_def split: option.splits if_splits)
  from inv q have "length (calls st) \<le> length images"
    "drop (length (calls st)) (zip [0..<length images] images) = []"
    by (auto simp: par_inv_def inv_dispatch_def)
  then show len: "length (calls st) = length images" by simp
  have all_finished: "finished st = {0..<length (calls st)}"
    using a by (auto simp: finished_def)
  from inv rej all_finished show ok: "\<forall>a\<in>set (calls st). succeeds env a"
    by (auto simp: par_inv_def inv_rejection_def in_set_conv_nth)
  from inv len show "\<forall>i<length images. calls st ! i =
           completionArgs env job (images ! i) (CompletionArgs.priorPage (calls st ! i))"
    by (simp add: par_inv_def inv_dispatch_def)
  from inv all_finished ok have each: "\<forall>i<length (calls st).
      i < length (results st) \<and> results st ! i = Some (formatted env (calls st ! i))"
    and le: "length (results st) \<le> length (calls st)"
    by (auto simp: par_inv_def inv_results_def)
  have "length (results st) = length (calls st)"
  proof (cases "calls st")
    case Nil
    with le show ?thesis by simp
  next
    case (Cons c cs)
    then have "length (calls st) - 1 < length (calls st)" by simp
    with each have "length (calls st) - 1 < length (results st)" by blast
    with le show ?thesis by simp
  qed
  with each show "slots = map (\<lambda>a. Some (formatted env a)) (calls st)"
    unfolding slots by (intro nth_equalityI) simp_all
  from inv show "safeCounts env (calls st) \<longrightarrow>
           inputTokenCount st = Num (sum_list (map (inputReported env) (calls st))) \<and>
           outputTokenCount st = Num (sum_list (map (outputReported env) (calls st)))"
    by (simp add: par_inv_def inv_tokens_def sum_finished_all [OF all_finished])
qed

lemma sequential_all_succeed:
  assumes "snd (sequential env job images st) = None"
  shows "\<forall>a\<in>set (requests env job images (priorPage st)). succeeds env a"
proof
  let ?new = "requests env job images (priorPage st)"
  have thr: "threaded env (priorPage st) ?new" by (rule requests_threaded)
  fix a assume "a \<in> set ?new"
  then obtain k where k: "k < length ?new" "?new ! k = a"
    by (auto simp: in_set_conv_nth)
  show "succeeds env a"
  proof (rule ccontr)
    assume bad: "\<not> succeeds env a"
    with threaded_failure_last [OF thr k(1)] k(2) have "Suc k = length ?new" by simp
    from last_at [OF this] k(2) have "last ?new = a" "?new \<noteq> []" by simp_all
    with assms bad show False
      by (auto simp: sequential_error succeeds_def split: list.splits sum.splits)
  qed
qed

text \<open>What a fulfilled processing leaves in the run state, in either mode.\<close>

lemma process_Fulfilled:
  assumes "process env job limit images = (st, Fulfilled u)"
  shows "length (calls st) = length images"
    and "\<forall>a\<in>set (calls st). succeeds env a"
    and "\<forall>i<length images. calls st ! i =
           completionArgs env job (images ! i) (CompletionArgs.priorPage (calls st ! i))"
    and "aggregatedMarkdown st = map (formatted env) (calls st)"
    and "safeCounts env (calls st) \<longrightarrow>
           inputTokenCount st = Num (sum_list (map (inputReported env) (calls st))) \<and>
           outputTokenCount st = Num (sum_list (map (outputReported env) (calls st)))"
proof -
  have "length (calls st) = length images \<and>
    (\<forall>a\<in>set (calls st). succeeds env a) \<and>
    (\<forall>i<length images. calls st ! i =
           completionArgs env job (images ! i) (CompletionArgs.priorPage (calls st ! i))) \<and>
    aggregatedMarkdown st = map (formatted env) (calls st) \<and>
    (safeCounts env (calls st) \<longrightarrow>
       inputTokenCount st = Num (sum_list (map (inputReported env) (calls st))) \<and>
       outputTokenCount st = Num (sum_list (map (outputReported env) (calls st))))"
  proof (cases "job_maintainFormat job")
    case True
    let ?seq = "sequential env job images initialState"
    let ?new = "requests env job images []"
    from process_sequential [OF True, of env limit images] assms
    have st: "st = fst ?seq" and none: "snd ?seq = None"
      by (auto split: option.splits)
    have log: "calls st = ?new"
      unfolding st by (simp add: sequential_calls initialState_def)
    from sequential_all_succeed [OF none] have ok: "\<forall>a\<in>set ?new. succeeds env a"
      by (simp add: initialState_def)
    then have len: "length ?new = length images" by (rule requests_complete)
    have md: "aggregatedMarkdown st = map (formatted env) (filter (succeeds env) ?new)"
      unfolding st by (simp add: sequential_markdown initialState_def)
    have tok: "inputTokenCount st = Num (sum_list (map (inputReported env) ?new)) \<and>
      outputTokenCount st = Num (sum_list (map (outputReported env) ?new))"
      if "safeCounts env ?new"
      unfolding st using sequential_tokens [of initialState 0 0 env job images] that
      by (simp add: initialState_def safeCounts_def)
    from ok have "filter (succeeds env) ?new = ?new" by simp
    with log ok len md tok requests_units [of _ env job images "[]"] show ?thesis
      by simp
  next
    case False
    let ?fin = "par_final env job limit images (completionOrder env) initialState"
    from False assms obtain slots where set: "settled ?fin = Fulfilled slots"
      and st: "st = (RunState.truncate ?fin)\<lparr> aggregatedMarkdown :=
                 aggregatedMarkdown (RunState.truncate ?fin) @ map the (filter isString slots) \<rparr>"
      by (auto simp: process_def processPagesInBatches_def Let_def
          split: if_splits promise.splits)
    note pf = par_fulfilled [OF refl set]
    have md0: "aggregatedMarkdown (RunState.truncate ?fin) = []"
      using par_markdown_untouched [of env job limit images "completionOrder env"]
      by (simp add: RunState.truncate_def)
    have "map the (filter isString slots) = map (formatted env) (calls ?fin)"
      unfolding pf(4) by (simp add: isString_def comp_def)
    with st md0 pf show ?thesis
      by (simp add: RunState.truncate_def)
  qed
  then show "length (calls st) = length images"
    and "\<forall>a\<in>set (calls st). succeeds env a"
    and "\<forall>i<length images. calls st ! i =
           completionArgs env job (images ! i) (CompletionArgs.priorPage (calls st ! i))"
    and "aggregatedMarkdown st = map (formatted env) (calls st)"
    and "safeCounts env (calls st) \<longrightarrow>
           inputTokenCount st = Num (sum_list (map (inputReported env) (calls st))) \<and>
           outputTokenCount st = Num (sum_list (map (outputReported env) (calls st)))"
    by blast+
qed


section \<open>The output of a fulfilled run\<close>

text \<open>What a fulfilled run leaves behind, in either mode.\<close>

lemma documind_Fulfilled_calls:
  assumes "documind env args = (w, Fulfilled out)"
  obtains llm files where
    "readdir env (tempDirectory_of env args) = Inr files"
    "length (adapterCalls w) = length (pngs files)"
    "\<forall>a\<in>set (adapterCalls w). succeeds env a"
    "\<forall>i<length (pngs files). adapterCalls w ! i =
        completionArgs env (job_of env args llm) (pngs files ! i)
          (CompletionArgs.priorPage (adapterCalls w ! i))"
    "pages out = formattedPages (pagesArg_of args) (map (formatted env) (adapterCalls w))"
    "safeCounts env (adapterCalls w) \<longrightarrow>
       DocumindOutput.inputTokens out = Num (sum_list (map (inputReported env) (adapterCalls w))) \<and>
       DocumindOutput.outputTokens out = Num (sum_list (map (outputReported env) (adapterCalls w)))"
  using assms
proof (cases rule: documind_Fulfilled)
  case (1 llm ext localPath files st)
  note pf = process_Fulfilled [OF 1(4)]
  show ?thesis
    using that [of files llm] 1(3,5,6) pf by simp
qed

lemma env_order_irrelevant:
  "tempDirectory_of (env\<lparr> completionOrder := order \<rparr>) args = tempDirectory_of env args"
  "readdir (env\<lparr> completionOrder := order \<rparr>) = readdir env"
  "getCompletion (env\<lparr> completionOrder := order \<rparr>) = getCompletion env"
  "formatMarkdown (env\<lparr> completionOrder := order \<rparr>) = formatMarkdown env"
  "path_join (env\<lparr> completionOrder := order \<rparr>) = path_join env"
  by (simp_all add: tempDirectory_of_def)

text \<open>
  Claim C1. In the parallel mode, whatever the order in which the adapter calls finish,
  a fulfilled run has one page and one call for every image, and for every index \<open>i\<close>
  call \<open>i\<close> is the one for image \<open>i\<close>, page \<open>i\<close> carries the formatted response to
  that call (not the response that came in \<open>i\<close>-th), and its page number is the resolved
  number of index \<open>i\<close>.
\<close>

theorem parallel_pages_in_index_order:
  assumes "DocumindArgs.maintainFormat args \<noteq> Some True"
    and "documind (env\<lparr> completionOrder := order \<rparr>) args = (w, Fulfilled out)"
  shows "\<exists>files. readdir env (tempDirectory_of env args) = Inr files \<and>
           length (pages out) = length (pngs files) \<and>
           length (adapterCalls w) = length (pngs files) \<and>
           (\<forall>i<length (pngs files).
              imagePath (adapterCalls w ! i) =
                path_join env (tempDirectory_of env args) (pngs files ! i) \<and>
              (\<exists>r. getCompletion env (adapterCalls w ! i) = Inr r \<and>
                 Page.content (pages out ! i) = formatMarkdown env (CompletionResponse.content r)) \<and>
              page (pages out ! i) = pageNumber (pagesArg_of args) i)"
  using assms(2)
proof (cases rule: documind_Fulfilled_calls)
  case (1 llm files)
  let ?env = "env\<lparr> completionOrder := order \<rparr>"
  have n: "length (pages out) = length (pngs files)"
    using 1(2,5) by (simp add: formattedPages_length)
  have each: "imagePath (adapterCalls w ! i) =
                path_join env (tempDirectory_of env args) (pngs files ! i) \<and>
              (\<exists>r. getCompletion env (adapterCalls w ! i) = Inr r \<and>
                 Page.content (pages out ! i) = formatMarkdown env (CompletionResponse.content r)) \<and>
              page (pages out ! i) = pageNumber (pagesArg_of args) i"
    if i: "i < length (pngs files)" for i
  proof -
    from 1(4) i have "adapterCalls w ! i =
        completionArgs ?env (job_of ?env args llm) (pngs files ! i)
          (CompletionArgs.priorPage (adapterCalls w ! i))"
      by simp
    then have "imagePath (adapterCalls w ! i) =
        imagePath (completionArgs ?env (job_of ?env args llm) (pngs files ! i)
          (CompletionArgs.priorPage (adapterCalls w ! i)))"
      by simp
    then have path: "imagePath (adapterCalls w ! i) =
        path_join env (tempDirectory_of env args) (pngs files ! i)"
      by (simp add: completionArgs_def job_of_def env_order_irrelevant)
    from 1(2,3) i have "succeeds ?env (adapterCalls w ! i)" by simp
    then obtain r where r: "getCompletion env (adapterCalls w ! i) = Inr r"
      by (auto simp: succeeds_def split: sum.splits)
    have "pages out ! i =
        \<lparr> Page.content = formatted ?env (adapterCalls w ! i),
          contentLength = length (formatted ?env (adapterCalls w ! i)),
          page = pageNumber (pagesArg_of args) i \<rparr>"
      using 1(2,5) i by (simp add: formattedPages_nth)
    with r path show ?thesis
      by (simp add: formatted_def)
  qed
  from 1(1,2) n each show ?thesis
    by (auto simp: env_order_irrelevant)
qed


theorem parallel_pages_in_index_order_witness:
  "\<exists>w out. documind ((exampleEnv threePages [])\<lparr> completionOrder := [1, 0, 2] \<rparr>)
               (exampleArgs False 2 None) = (w, Fulfilled out) \<and>
     length (pages out) = 3 \<and>
     imagePath (adapterCalls w ! 0) = js ''/t/documind-file-1234/1.png'' \<and>
     (\<exists>r. exampleAdapter (adapterCalls w ! 0) = Inr r \<and>
        Page.content (pages out ! 0) = CompletionResponse.content r) \<and>
     map Page.content (pages out) =
       [js ''/t/documind-file-1234/1.png|'', js ''/t/documind-file-1234/2.png|'',
        js ''/t/documind-file-1234/3.png|/t/documind-file-1234/2.png|''] \<and>
     map page (pages out) = [Some 1, Some 2, Some 3]"
proof -
  let ?env = "exampleEnv threePages [] :: (nat, unit) Env"
  let ?args = "exampleArgs False 2 None"
  obtain w res where run: "documind (?env\<lparr> completionOrder := [1, 0, 2] \<rparr>) ?args = (w, res)"
    by (cases "documind (?env\<lparr> completionOrder := [1, 0, 2] \<rparr>) ?args")
  have "case snd (documind (?env\<lparr> completionOrder := [1, 0, 2] \<rparr>) ?args) of
          Fulfilled out \<Rightarrow>
            map Page.content (pages out) =
              [js ''/t/documind-file-1234/1.png|'', js ''/t/documind-file-1234/2.png|'',
               js ''/t/documind-file-1234/3.png|/t/documind-file-1234/2.png|''] \<and>
            map page (pages out) = [Some 1, Some 2, Some 3]
        | _ \<Rightarrow> False"
    by (simp add: model_defs example_defs)
  with run obtain out where res: "res = Fulfilled out"
    and eval: "map Page.content (pages out) =
              [js ''/t/documind-file-1234/1.png|'', js ''/t/documind-file-1234/2.png|'',
               js ''/t/documind-file-1234/3.png|/t/documind-file-1234/2.png|'']"
      "map page (pages out) = [Some 1, Some 2, Some 3]"
    by (auto split: promise.splits)
  have mode: "DocumindArgs.maintainFormat ?args \<noteq> Some True"
    by (simp add: exampleArgs_def)
  from parallel_pages_in_index_order [OF mode run [unfolded res]]
  obtain files where files: "readdir ?env (tempDirectory_of ?env ?args) = Inr files"
    and len: "length (pages out) = length (pngs files)"
    and each: "\<forall>i<length (pngs files).
              imagePath (adapterCalls w ! i) =
                path_join ?env (tempDirectory_of ?env ?args) (pngs files ! i) \<and>
              (\<exists>r. getCompletion ?env (adapterCalls w ! i) = Inr r \<and>
                 Page.content (pages out ! i) = formatMarkdown ?env (CompletionResponse.content r)) \<and>
              page (pages out ! i) = pageNumber (pagesArg_of ?args) i"
    by blast
  from files have "pngs files = [js ''1.png'', js ''2.png'', js ''3.png'']"
    by (auto simp: exampleEnv_def threePages_def pngs_def endsWith_def js_def)
  with len each have "length (pages out) = 3"
    and "imagePath (adapterCalls w ! 0) = path_join ?env (tempDirectory_of ?env ?args) (js ''1.png'')"
    and "\<exists>r. getCompletion ?env (adapterCalls w ! 0) = Inr r \<and>
                 Page.content (pages out ! 0) = formatMarkdown ?env (CompletionResponse.content r)"
    by auto
  then have t: "length (pages out) = 3"
    "imagePath (adapterCalls w ! 0) = js ''/t/documind-file-1234/1.png''"
    "\<exists>r. exampleAdapter (adapterCalls w ! 0) = Inr r \<and>
                 Page.content (pages out ! 0) = CompletionResponse.content r"
    by (simp_all add: exampleEnv_def exampleArgs_def tempDirectory_of_def orDefault_def js_def)
  from run res have r: "documind (?env\<lparr> completionOrder := [1, 0, 2] \<rparr>) ?args = (w, Fulfilled out)"
    by simp
  show ?thesis
    by (intro exI [of _ w] exI [of _ out] conjI) (rule r t eval)+
qed

text \<open>
  Claim C8, as amended. The token totals of a fulfilled run are the exact integer sums of
  the counts the adapter reported for the work units, one response per page of the
  output, provided the counts are safe: every response reports finite whole numbers, and
  the absolute values of the input counts, and of the output counts, add up to less than
  \<open>2\<^sup>5\<^sup>3\<close>. The totals are built by the double additions of lines 118, 119, 145 and
  146, which are exact within this bound.
\<close>

theorem token_totals:
  assumes "documind env args = (w, Fulfilled out)"
    and "safeCounts env (adapterCalls w)"
  shows "\<exists>responses.
           length responses = length (pages out) \<and>
           length (adapterCalls w) = length (pages out) \<and>
           (\<forall>i<length (pages out).
              getCompletion env (adapterCalls w ! i) = Inr (responses ! i) \<and>
              Page.content (pages out ! i) =
                formatMarkdown env (CompletionResponse.content (responses ! i))) \<and>
           (\<forall>r\<in>set responses. is_integer (CompletionResponse.inputTokens r) \<and>
                               is_integer (CompletionResponse.outputTokens r)) \<and>
           DocumindOutput.inputTokens out =
             Num (sum_list (map (\<lambda>r. integer_of (CompletionResponse.inputTokens r)) responses)) \<and>
           DocumindOutput.outputTokens out =
             Num (sum_list (map (\<lambda>r. integer_of (CompletionResponse.outputTokens r)) responses))"
  using assms(1)
proof (cases rule: documind_Fulfilled_calls)
  case (1 llm files)
  define response where
    "response a = (case getCompletion env a of Inr r \<Rightarrow> r
                   | Inl e \<Rightarrow> \<lparr> CompletionResponse.content = [],
                               CompletionResponse.inputTokens = Num 0,
                               CompletionResponse.outputTokens = Num 0 \<rparr>)" for a
  let ?rs = "map response (adapterCalls w)"
  have ok: "getCompletion env a = Inr (response a)" if "a \<in> set (adapterCalls w)" for a
    using 1(3) that by (auto simp: succeeds_def response_def split: sum.splits)
  have n: "length (pages out) = length (adapterCalls w)"
    using 1(5) by (simp add: formattedPages_length)
  have each: "getCompletion env (adapterCalls w ! i) = Inr (?rs ! i) \<and>
              Page.content (pages out ! i) = formatMarkdown env (CompletionResponse.content (?rs ! i))"
    if "i < length (pages out)" for i
    using that n ok [of "adapterCalls w ! i"] 1(5)
    by (simp add: formattedPages_nth formatted_def)
  have ints: "\<forall>r\<in>set ?rs. is_integer (CompletionResponse.inputTokens r) \<and>
                           is_integer (CompletionResponse.outputTokens r)"
  proof
    fix r assume "r \<in> set ?rs"
    then obtain a where a: "a \<in> set (adapterCalls w)" "r = response a" by auto
    from assms(2) a(1) have "integerCounts env a"
      by (simp add: safeCounts_def list_all_iff)
    with ok [OF a(1)] a(2) show "is_integer (CompletionResponse.inputTokens r) \<and>
                           is_integer (CompletionResponse.outputTokens r)"
      by (simp add: integerCounts_def)
  qed
  have "map (inputReported env) (adapterCalls w) =
      map (\<lambda>r. integer_of (CompletionResponse.inputTokens r)) ?rs"
    "map (outputReported env) (adapterCalls w) =
      map (\<lambda>r. integer_of (CompletionResponse.outputTokens r)) ?rs"
    using ok by (auto simp: inputReported_def outputReported_def)
  with 1(6) assms(2) n each ints show ?thesis
    by (intro exI [of _ ?rs]) simp
qed


lemma replicate_numeral_Cons: "replicate (numeral k) x = x # replicate (pred_numeral k) x"
  by (simp add: numeral_eq_Suc)

lemma three_elements: "length xs = 3 \<Longrightarrow> map f xs = [f (xs ! 0), f (xs ! 1), f (xs ! 2)]"
  by (cases xs; cases "tl xs"; cases "tl (tl xs)") auto

lemma example_fulfilled:
  assumes "case snd (documind env args) of Fulfilled out \<Rightarrow> P out | _ \<Rightarrow> False"
  obtains w out where "documind env args = (w, Fulfilled out)" "P out"
  using assms by (cases "documind env args") (auto split: promise.splits)

theorem token_totals_witness:
  "\<exists>w out (responses :: CompletionResponse list).
     documind (exampleEnv threePages [2, 1, 0]) (exampleArgs False 10 None) = (w, Fulfilled out) \<and>
     safeCounts (exampleEnv threePages [2, 1, 0]) (adapterCalls w) \<and>
     length responses = 3 \<and>
     DocumindOutput.inputTokens out =
       Num (sum_list (map (\<lambda>r. integer_of (CompletionResponse.inputTokens r)) responses)) \<and>
     DocumindOutput.outputTokens out =
       Num (sum_list (map (\<lambda>r. integer_of (CompletionResponse.outputTokens r)) responses)) \<and>
     DocumindOutput.inputTokens out = Num 81 \<and> DocumindOutput.outputTokens out = Num 0"
proof -
  let ?env = "exampleEnv threePages [2, 1, 0] :: (nat, unit) Env"
  let ?args = "exampleArgs False 10 None"
  obtain w res where run: "documind ?env ?args = (w, res)"
    by (cases "documind ?env ?args")
  have "case snd (documind ?env ?args) of
          Fulfilled out \<Rightarrow>
            length (pages out) = 3 \<and> DocumindOutput.inputTokens out = Num 81 \<and>
            DocumindOutput.outputTokens out = Num 0
        | _ \<Rightarrow> False"
    by (simp add: model_defs example_defs replicate_numeral_Cons to_number_safe)
  with run obtain out where res: "res = Fulfilled out"
    and eval: "length (pages out) = 3" "DocumindOutput.inputTokens out = Num 81"
      "DocumindOutput.outputTokens out = Num 0"
    by (auto split: promise.splits)
  from run res have r: "documind ?env ?args = (w, Fulfilled out)" by simp
  have "safeCounts ?env (adapterCalls (fst (documind ?env ?args)))"
    by (simp add: model_defs example_defs replicate_numeral_Cons safeCounts_def
        integerCounts_def inputReported_def outputReported_def)
  with r have safe: "safeCounts ?env (adapterCalls w)" by simp
  obtain responses :: "CompletionResponse list" where
    len: "length responses = length (pages out)"
    and t: "DocumindOutput.inputTokens out =
        Num (sum_list (map (\<lambda>r. integer_of (CompletionResponse.inputTokens r)) responses))"
      "DocumindOutput.outputTokens out =
        Num (sum_list (map (\<lambda>r. integer_of (CompletionResponse.outputTokens r)) responses))"
    using token_totals [OF r safe] by blast
  from len eval(1) have three: "length responses = 3" by simp
  show ?thesis
    by (intro exI [of _ w] exI [of _ out] exI [of _ responses] conjI)
      (rule r safe t three eval)+
qed

text \<open>
  The claim as stated fails: the totals are sums of doubles. In the maintain-format mode
  with an adapter that reports \<open>2\<^sup>5\<^sup>3\<close>, 1 and 1 input tokens for the three pages, the
  run is fulfilled with \<open>2\<^sup>5\<^sup>3\<close> input tokens: adding 1 to \<open>2\<^sup>5\<^sup>3\<close> gives \<open>2\<^sup>5\<^sup>3\<close>
  again, twice. The exact sum of the three counts is \<open>2\<^sup>5\<^sup>3 + 2\<close>.
\<close>

theorem token_totals_counterexample:
  "map_option DocumindOutput.inputTokens
     (outputOf (snd (documind hugeEnv (exampleArgs True 10 None)))) =
     Some (Num 9007199254740992) \<and>
   map (inputReported hugeEnv) (adapterCalls (fst (documind hugeEnv (exampleArgs True 10 None)))) =
     [9007199254740992, 1, 1] \<and>
   sum_list (map (inputReported hugeEnv)
     (adapterCalls (fst (documind hugeEnv (exampleArgs True 10 None))))) = 9007199254740994"
  by (simp add: model_defs example_defs hugeEnv_def hugeAdapter_def outputOf_def
      inputReported_def to_number_def round53_def bit_length_pos)

text \<open>
  Claim C7. The page numbers of a fulfilled run follow the page selection: with no
  selection or \<open>-1\<close>, page \<open>i\<close> (from 0) has number \<open>i + 1\<close>; with a list, page
  \<open>i\<close> has the \<open>i\<close>-th entry of the sorted list, which is the list's own \<open>i\<close>-th
  entry when the list is sorted (and nothing where the list has no such entry, as
  \<^verbatim>\<open>list[i]\<close> in JavaScript); with any other number, every page has that number.
\<close>

theorem page_numbers_follow_selection:
  assumes "documind env args = (w, Fulfilled out)" and "i < length (pages out)"
  shows "(pagesToConvertAsImages args = None \<or> pagesToConvertAsImages args = Some (PageNumber (- 1)) \<longrightarrow>
            page (pages out ! i) = Some (int i + 1)) \<and>
         (\<forall>xs. pagesToConvertAsImages args = Some (PageList xs) \<longrightarrow>
            page (pages out ! i) = (if i < length xs then Some (sort xs ! i) else None) \<and>
            (sorted xs \<longrightarrow> page (pages out ! i) = (if i < length xs then Some (xs ! i) else None))) \<and>
         (\<forall>n. pagesToConvertAsImages args = Some (PageNumber n) \<and> n \<noteq> - 1 \<longrightarrow>
            page (pages out ! i) = Some n)"
  using assms(1)
proof (cases rule: documind_Fulfilled_calls)
  case (1 llm files)
  from 1(5) assms(2) have "page (pages out ! i) = pageNumber (pagesArg_of args) i"
    by (simp add: formattedPages_length formattedPages_nth)
  then show ?thesis
    by (auto simp: pagesArg_of_def pageNumber_def sortPages_def orDefault_def sort_key_id_if_sorted)
qed


theorem page_numbers_follow_selection_witness:
  "(\<exists>w out. documind (exampleEnv threePages []) (exampleArgs True 10 (Some (PageNumber (- 1)))) =
       (w, Fulfilled out) \<and>
     map page (pages out) = [Some 1, Some 2, Some 3]) \<and>
   (\<exists>w out. documind (exampleEnv threePages []) (exampleArgs True 10 (Some (PageList [2, 5, 7]))) =
       (w, Fulfilled out) \<and>
     map page (pages out) = [Some 2, Some 5, Some 7]) \<and>
   (\<exists>w out. documind (exampleEnv threePages []) (exampleArgs True 10 (Some (PageNumber 4))) =
       (w, Fulfilled out) \<and>
     map page (pages out) = [Some 4, Some 4, Some 4])"
proof (intro conjI)
  let ?env = "exampleEnv threePages [] :: (nat, unit) Env"
  have run: "case snd (documind ?env (exampleArgs True 10 selection)) of
               Fulfilled out \<Rightarrow> length (pages out) = 3 | _ \<Rightarrow> False"
    if "selection \<in> {Some (PageNumber (- 1)), Some (PageList [2, 5, 7]), Some (PageNumber 4)}"
    for selection
    using that by (auto simp: model_defs example_defs)
  {
    let ?args = "exampleArgs True 10 (Some (PageNumber (- 1)))"
    from run [of "Some (PageNumber (- 1))"] have
      "case snd (documind ?env ?args) of Fulfilled out \<Rightarrow> length (pages out) = 3 | _ \<Rightarrow> False"
      by simp
    then obtain w out
      where r: "documind ?env ?args = (w, Fulfilled out)" and n: "length (pages out) = 3"
      by (rule example_fulfilled)
    have sel: "pagesToConvertAsImages ?args = Some (PageNumber (- 1))"
      by (simp add: exampleArgs_def)
    from page_numbers_follow_selection [OF r, of 0] page_numbers_follow_selection [OF r, of 1]
      page_numbers_follow_selection [OF r, of 2] n sel
    have m: "map page (pages out) = [Some 1, Some 2, Some 3]"
      by (simp add: three_elements)
    show "\<exists>w out. documind ?env ?args = (w, Fulfilled out) \<and>
        map page (pages out) = [Some 1, Some 2, Some 3]"
      by (intro exI [of _ w] exI [of _ out] conjI) (rule r m)+
  }
  {
    let ?args = "exampleArgs True 10 (Some (PageList [2, 5, 7]))"
    from run [of "Some (PageList [2, 5, 7])"] have
      "case snd (documind ?env ?args) of Fulfilled out \<Rightarrow> length (pages out) = 3 | _ \<Rightarrow> False"
      by simp
    then obtain w out
      where r: "documind ?env ?args = (w, Fulfilled out)" and n: "length (pages out) = 3"
      by (rule example_fulfilled)
    have sel: "pagesToConvertAsImages ?args = Some (PageList [2, 5, 7])"
      by (simp add: exampleArgs_def)
    from page_numbers_follow_selection [OF r, of 0] page_numbers_follow_selection [OF r, of 1]
      page_numbers_follow_selection [OF r, of 2] n sel
    have m: "map page (pages out) = [Some 2, Some 5, Some 7]"
      by (simp add: three_elements)
    show "\<exists>w out. documind ?env ?args = (w, Fulfilled out) \<and>
        map page (pages out) = [Some 2, Some 5, Some 7]"
      by (intro exI [of _ w] exI [of _ out] conjI) (rule r m)+
  }
  {
    let ?args = "exampleArgs True 10 (Some (PageNumber 4))"
    from run [of "Some (PageNumber 4)"] have
      "case snd (documind ?env ?args) of Fulfilled out \<Rightarrow> length (pages out) = 3 | _ \<Rightarrow> False"
      by simp
    then obtain w out
      where r: "documind ?env ?args = (w, Fulfilled out)" and n: "length (pages out) = 3"
      by (rule example_fulfilled)
    have sel: "pagesToConvertAsImages ?args = Some (PageNumber 4)"
      by (simp add: exampleArgs_def)
    from page_numbers_follow_selection [OF r, of 0] page_numbers_follow_selection [OF r, of 1]
      page_numbers_follow_selection [OF r, of 2] n sel
    have m: "map page (pages out) = [Some 4, Some 4, Some 4]"
      by (simp add: three_elements)
    show "\<exists>w out. documind ?env ?args = (w, Fulfilled out) \<and>
        map page (pages out) = [Some 4, Some 4, Some 4]"
      by (intro exI [of _ w] exI [of _ out] conjI) (rule r m)+
  }
qed


section \<open>The temporary directory and the caller's array\<close>

lemma outputOf_simps:
  "outputOf Pending = None" "outputOf (Rejected e) = None" "outputOf (Fulfilled a) = Some a"
  by (simp_all add: outputOf_def)

text \<open>What a run leaves of the temporary directory and of the caller's array.\<close>

lemma run_leaves:
  assumes "run env args llm w0 = (w, res)"
  shows "tempDirectoryOnDisk w =
           (if orDefault True (cleanup args) \<and> outputOf res \<noteq> None then None
            else tempDirectoryOnDisk w0)"
    and "callerPages w =
           (case downloadFile env (filePath args) (tempDirectory_of env args) of
              Inr (extension, Some localPath) \<Rightarrow>
                if localPath = [] then callerPages w0 else map_option sortPages (callerPages w0)
            | _ \<Rightarrow> callerPages w0)"
    and "outputOf res \<noteq> None \<or> adapterCalls w \<noteq> adapterCalls w0 \<longrightarrow>
           (case downloadFile env (filePath args) (tempDirectory_of env args) of
              Inr (extension, Some localPath) \<Rightarrow> localPath \<noteq> []
            | _ \<Rightarrow> False)"
proof -
  have fin: "tempDirectoryOnDisk w' =
               (if c \<and> outputOf res' \<noteq> None then None else tempDirectoryOnDisk w1) \<and>
             callerPages w' = callerPages w1"
    if "finish env c od pa td name w1 st = (w', res')" for c od pa td name w1 st w' res'
    using finish_cases [OF that] by (cases res') (auto simp: outputOf_simps)
  show "tempDirectoryOnDisk w =
           (if orDefault True (cleanup args) \<and> outputOf res \<noteq> None then None
            else tempDirectoryOnDisk w0)"
    using assms unfolding run_def
    by (auto simp: Let_def outputOf_simps dest!: fin
        split: sum.splits option.splits if_splits prod.splits promise.splits)
  show "callerPages w =
           (case downloadFile env (filePath args) (tempDirectory_of env args) of
              Inr (extension, Some localPath) \<Rightarrow>
                if localPath = [] then callerPages w0 else map_option sortPages (callerPages w0)
            | _ \<Rightarrow> callerPages w0)"
    using assms unfolding run_def
    by (auto simp: Let_def dest!: fin
        split: sum.splits option.splits if_splits prod.splits promise.splits)
  show "outputOf res \<noteq> None \<or> adapterCalls w \<noteq> adapterCalls w0 \<longrightarrow>
         (case downloadFile env (filePath args) (tempDirectory_of env args) of
              Inr (extension, Some localPath) \<Rightarrow> localPath \<noteq> []
            | _ \<Rightarrow> False)"
    using assms unfolding run_def
    by (auto simp: Let_def outputOf_simps
        split: sum.splits option.splits if_splits prod.splits promise.splits)
qed

text \<open>
  Claim C3, as amended. The temporary directory is removed exactly when \<open>cleanup\<close> is
  not false and the run is fulfilled. In every other case, that is with \<open>cleanup\<close> false
  or in a run that is rejected or never settles, the directory is left on disk whenever it
  was created: line 188 is the only removal, and no failure path reaches it.
\<close>

theorem cleanup_only_after_success:
  assumes "documind env args = (w, res)"
  shows "(cleanup args \<noteq> Some False \<and> outputOf res \<noteq> None \<longrightarrow> tempDirectoryOnDisk w = None) \<and>
         (cleanup args = Some False \<or> outputOf res = None \<longrightarrow>
            tempDirectoryOnDisk w =
              (if directoryCreated env args then Some (tempDirectory_of env args) else None))"
proof -
  have c: "orDefault True (cleanup args) \<longleftrightarrow> cleanup args \<noteq> Some False"
    by (cases "cleanup args") (auto simp: orDefault_def)
  show ?thesis
  proof (cases "directoryCreated env args")
    case True
    then obtain llm where "documind env args =
        run env args llm ((initialWorld args)\<lparr> tempDirectoryOnDisk := Some (tempDirectory_of env args) \<rparr>)"
      by (auto simp: directoryCreated_def documind_def split: sum.splits)
    with assms have "run env args llm
        ((initialWorld args)\<lparr> tempDirectoryOnDisk := Some (tempDirectory_of env args) \<rparr>) = (w, res)"
      by simp
    from run_leaves(1) [OF this] True c show ?thesis by auto
  next
    case False
    with assms have "tempDirectoryOnDisk w = None \<and> outputOf res = None"
      by (auto simp: directoryCreated_def documind_def initialWorld_def outputOf_simps
          split: sum.splits if_splits option.splits)
    with False show ?thesis by simp
  qed
qed

theorem cleanup_only_after_success_witness:
  "(\<exists>w out. documind (exampleEnv threePages []) (exampleArgs True 10 None) = (w, Fulfilled out) \<and>
      tempDirectoryOnDisk w = None) \<and>
   (\<exists>w out. documind (exampleEnv threePages [])
        ((exampleArgs True 10 None)\<lparr> cleanup := Some False \<rparr>) = (w, Fulfilled out) \<and>
      tempDirectoryOnDisk w = Some (js ''/t/documind-file-1234'')) \<and>
   (\<exists>w. documind (exampleEnv fivePagesSecondBad []) (exampleArgs True 10 None) =
        (w, Rejected (Raised 404)) \<and>
      tempDirectoryOnDisk w = Some (js ''/t/documind-file-1234''))"
proof (intro conjI)
  let ?tmp = "js ''/t/documind-file-1234''"
  have created: "directoryCreated (exampleEnv files []) ((exampleArgs True 10 None)\<lparr> cleanup := c \<rparr>)"
    "tempDirectory_of (exampleEnv files []) ((exampleArgs True 10 None)\<lparr> cleanup := c \<rparr>) = ?tmp"
    for files c
    by (simp_all add: directoryCreated_def tempDirectory_of_def orDefault_def example_defs)
  have same: "(exampleArgs True 10 None)\<lparr> cleanup := None \<rparr> = exampleArgs True 10 None"
    by (simp add: exampleArgs_def)
  {
    let ?env = "exampleEnv threePages [] :: (nat, unit) Env"
    let ?args = "exampleArgs True 10 None"
    have "case snd (documind ?env ?args) of Fulfilled out \<Rightarrow> True | _ \<Rightarrow> False"
      by (simp add: model_defs example_defs)
    then obtain w out where r: "documind ?env ?args = (w, Fulfilled out)"
      by (rule example_fulfilled)
    have "cleanup ?args \<noteq> Some False" by (simp add: exampleArgs_def)
    with cleanup_only_after_success [OF r] have d: "tempDirectoryOnDisk w = None"
      by (simp add: outputOf_simps)
    show "\<exists>w out. documind ?env ?args = (w, Fulfilled out) \<and> tempDirectoryOnDisk w = None"
      by (intro exI [of _ w] exI [of _ out] conjI) (rule r d)+
  }
  {
    let ?env = "exampleEnv threePages [] :: (nat, unit) Env"
    let ?args = "(exampleArgs True 10 None)\<lparr> cleanup := Some False \<rparr>"
    have "case snd (documind ?env ?args) of Fulfilled out \<Rightarrow> True | _ \<Rightarrow> False"
      by (simp add: model_defs example_defs)
    then obtain w out where r: "documind ?env ?args = (w, Fulfilled out)"
      by (rule example_fulfilled)
    from cleanup_only_after_success [OF r] created [of threePages "Some False"]
    have d: "tempDirectoryOnDisk w = Some ?tmp"
      by simp
    show "\<exists>w out. documind ?env ?args = (w, Fulfilled out) \<and> tempDirectoryOnDisk w = Some ?tmp"
      by (intro exI [of _ w] exI [of _ out] conjI) (rule r d)+
  }
  {
    let ?env = "exampleEnv fivePagesSecondBad [] :: (nat, unit) Env"
    let ?args = "exampleArgs True 10 None"
    obtain w res where run: "documind ?env ?args = (w, res)"
      by (cases "documind ?env ?args")
    have "snd (documind ?env ?args) = Rejected (Raised 404)"
      by (simp add: model_defs example_defs)
    with run have r: "documind ?env ?args = (w, Rejected (Raised 404))" by simp
    from cleanup_only_after_success [OF r] created [of fivePagesSecondBad None]
    have d: "tempDirectoryOnDisk w = Some ?tmp"
      by (simp add: outputOf_simps same)
    show "\<exists>w. documind ?env ?args = (w, Rejected (Raised 404)) \<and> tempDirectoryOnDisk w = Some ?tmp"
      by (intro exI [of _ w] conjI) (rule r d)+
  }
qed

text \<open>
  The claim as stated fails: with \<open>cleanup\<close> true, a run in the maintain-format mode whose
  second adapter call fails is rejected and leaves the temporary directory on disk.
\<close>

theorem cleanup_on_failure_counterexample:
  "cleanup ((exampleArgs True 10 None)\<lparr> cleanup := Some True \<rparr>) = Some True \<and>
   snd (documind (exampleEnv fivePagesSecondBad [])
          ((exampleArgs True 10 None)\<lparr> cleanup := Some True \<rparr>)) = Rejected (Raised 404) \<and>
   tempDirectoryOnDisk (fst (documind (exampleEnv fivePagesSecondBad [])
          ((exampleArgs True 10 None)\<lparr> cleanup := Some True \<rparr>))) =
     Some (js ''/t/documind-file-1234'')"
  by (simp add: model_defs example_defs)

text \<open>
  Claim C10. When \<^verbatim>\<open>pagesToConvertAsImages\<close> is an array, a call that reaches line 69
  (valid parameters, a key, a file path, the temporary directory and a downloaded file)
  leaves the caller's array sorted ascending, and the sorted array is the one the
  conversion and the page numbers use. A call that fails before line 69 produces no output,
  makes no adapter call and leaves the array as it was.
\<close>

theorem caller_array_sorted_in_place:
  assumes "documind env args = (w, res)"
    and "pagesToConvertAsImages args = Some (PageList xs)"
  shows "(reachesSort env args \<longrightarrow> callerPages w = Some (PageList (sort xs))) \<and>
         (\<not> reachesSort env args \<longrightarrow>
            callerPages w = Some (PageList xs) \<and> outputOf res = None \<and> adapterCalls w = []) \<and>
         pagesArg_of args = PageList (sort xs)"
proof -
  have arg: "pagesArg_of args = PageList (sort xs)"
    using assms(2) by (simp add: pagesArg_of_def orDefault_def sortPages_def)
  show ?thesis
  proof (cases "directoryCreated env args")
    case True
    let ?w0 = "(initialWorld args)\<lparr> tempDirectoryOnDisk := Some (tempDirectory_of env args) \<rparr>"
    from True obtain llm where "documind env args = run env args llm ?w0"
      by (auto simp: directoryCreated_def documind_def split: sum.splits)
    with assms have r: "run env args llm ?w0 = (w, res)"
      by simp
    have w0: "callerPages ?w0 = Some (PageList xs)" "adapterCalls ?w0 = []"
      using assms(2) by (simp_all add: initialWorld_def)
    from run_leaves(2) [OF r] run_leaves(3) [OF r] True w0 arg show ?thesis
      by (auto simp: reachesSort_def sortPages_def split: sum.splits option.splits if_splits)
  next
    case False
    with assms have "callerPages w = Some (PageList xs) \<and> outputOf res = None \<and> adapterCalls w = []"
      by (auto simp: directoryCreated_def documind_def initialWorld_def outputOf_simps
          split: sum.splits if_splits option.splits)
    with False arg show ?thesis by (simp add: reachesSort_def)
  qed
qed

theorem caller_array_sorted_in_place_witness:
  "\<exists>w out. documind (exampleEnv threePages []) (exampleArgs True 10 (Some (PageList [7, 2, 5]))) =
       (w, Fulfilled out) \<and>
     callerPages w = Some (PageList [2, 5, 7]) \<and>
     map page (pages out) = [Some 2, Some 5, Some 7]"
proof -
  let ?env = "exampleEnv threePages [] :: (nat, unit) Env"
  let ?args = "exampleArgs True 10 (Some (PageList [7, 2, 5]))"
  have "case snd (documind ?env ?args) of
          Fulfilled out \<Rightarrow> map page (pages out) = [Some 2, Some 5, Some 7] | _ \<Rightarrow> False"
    by (simp add: model_defs example_defs)
  then obtain w out where r: "documind ?env ?args = (w, Fulfilled out)"
    and m: "map page (pages out) = [Some 2, Some 5, Some 7]"
    by (rule example_fulfilled)
  have sel: "pagesToConvertAsImages ?args = Some (PageList [7, 2, 5])"
    by (simp add: exampleArgs_def)
  have "reachesSort ?env ?args"
    by (simp add: reachesSort_def directoryCreated_def tempDirectory_of_def orDefault_def example_defs)
  with caller_array_sorted_in_place [OF r sel] have c: "callerPages w = Some (PageList [2, 5, 7])"
    by simp
  show ?thesis
    by (intro exI [of _ w] exI [of _ out] conjI) (rule r c m)+
qed


section \<open>The first failure in the parallel mode\<close>

lemma account_order_irrelevant:
  "account (env\<lparr> completionOrder := order \<rparr>) r st = account env r st"
  by (simp add: account_def)

lemma order_irrelevant:
  "convert (env\<lparr> completionOrder := order \<rparr>) = convert env"
  "job_of (env\<lparr> completionOrder := order \<rparr>) = job_of env"
  "start_next (env\<lparr> completionOrder := order \<rparr>) = start_next env"
  "resume (env\<lparr> completionOrder := order \<rparr>) = resume env"
  "try_start (env\<lparr> completionOrder := order \<rparr>) = try_start env"
  "finish_call (env\<lparr> completionOrder := order \<rparr>) = finish_call env"
  "par_final (env\<lparr> completionOrder := order \<rparr>) = par_final env"
proof -
  have c: "completionArgs (env\<lparr> completionOrder := order \<rparr>) = completionArgs env"
    by (intro ext) (simp add: completionArgs_def)
  show "convert (env\<lparr> completionOrder := order \<rparr>) = convert env"
    by (intro ext) (simp add: convert_def split: sum.splits)
  show "job_of (env\<lparr> completionOrder := order \<rparr>) = job_of env"
    by (intro ext) (simp add: job_of_def defaultModel_def tempDirectory_of_def)
  show s: "start_next (env\<lparr> completionOrder := order \<rparr>) = start_next env"
    by (intro ext) (simp add: start_next_def c split: list.splits prod.splits)
  show r: "resume (env\<lparr> completionOrder := order \<rparr>) = resume env"
    by (intro ext) (simp add: resume_def account_order_irrelevant split: sum.splits)
  show t: "try_start (env\<lparr> completionOrder := order \<rparr>) = try_start env"
    by (intro ext) (simp add: try_start_def s)
  show f: "finish_call (env\<lparr> completionOrder := order \<rparr>) = finish_call env"
    by (intro ext) (simp add: finish_call_def s r split: option.splits)
  show "par_final (env\<lparr> completionOrder := order \<rparr>) = par_final env"
    by (intro ext) (simp add: par_final_def t f)
qed

lemma process_parallel:
  assumes "\<not> job_maintainFormat job"
  shows "process (env\<lparr> completionOrder := order \<rparr>) job limit images =
           (if limit < 1 then (initialState, Rejected LimitTypeError)
            else
              (case settled (par_final env job limit images order initialState) of
                 Pending \<Rightarrow>
                   (RunState.truncate (par_final env job limit images order initialState), Pending)
               | Rejected e \<Rightarrow>
                   (RunState.truncate (par_final env job limit images order initialState),
                    Rejected (Raised e))
               | Fulfilled slots \<Rightarrow>
                   ((RunState.truncate (par_final env job limit images order initialState))
                      \<lparr> aggregatedMarkdown :=
                          aggregatedMarkdown
                            (RunState.truncate (par_final env job limit images order initialState)) @
                          map the (filter isString slots) \<rparr>,
                    Fulfilled ())))"
  using assms
  by (simp add: process_def processPagesInBatches_def Let_def order_irrelevant
      split: promise.splits)

text \<open>A run that gets through the steps before the processing is decided by the processing.\<close>

lemma documind_processed_eq:
  assumes "validateLLMParams env (DocumindArgs.llmParams args) = Inr llm"
    and "orDefault [] (openaiAPIKey args) \<noteq> []"
    and "filePath args \<noteq> []"
    and "ensureDir env (tempDirectory_of env args) = None"
    and "downloadFile env (filePath args) (tempDirectory_of env args) = Inr (ext, Some localPath)"
    and "localPath \<noteq> []"
    and "convert env ext localPath (pagesArg_of args) (tempDirectory_of env args) = None"
    and "readdir env (tempDirectory_of env args) = Inr files"
    and "process env (job_of env args llm) (limit_of args) (pngs files) = (st, Rejected e)"
  shows "snd (documind env args) = Rejected e"
  using assms by (simp add: documind_def run_def Let_def)

text \<open>Only a unit named in the completion order has finished.\<close>

lemma finish_call_finished:
  assumes "inv_dispatch env job images st"
  shows "finished (finish_call env job k st) \<subseteq> insert k (finished st)"
proof (cases "map_of (active st) k")
  case None
  then show ?thesis by (auto simp: finish_call_def)
next
  case (Some args)
  let ?st1 = "st\<lparr> active := filter (\<lambda>t. fst t \<noteq> k) (active st) \<rparr>"
  have "finished (start_next env job (resume env k args ?st1)) = finished (resume env k args ?st1)"
    by (rule start_next_finished) (rule leave_dispatch [OF assms])
  also have "\<dots> = insert k (finished st)"
    by (simp add: resume_fields leave_finished(1) [OF assms Some])
  finally show ?thesis
    using Some by (simp add: finish_call_def)
qed

lemma finish_call_dispatch:
  "inv_dispatch env job images st \<Longrightarrow> inv_dispatch env job images (finish_call env job k st)"
  by (cases "map_of (active st) k")
    (auto simp: finish_call_def intro: start_next_dispatch leave_dispatch)

lemma fold_finish_finished:
  "inv_dispatch env job images st \<Longrightarrow>
     finished (fold (finish_call env job) order st) \<subseteq> finished st \<union> set order"
proof (induction order arbitrary: st)
  case Nil
  then show ?case by simp
next
  case (Cons k order)
  from Cons.IH [OF finish_call_dispatch [OF Cons.prems]] finish_call_finished [OF Cons.prems, of k]
  show ?case by auto
qed

lemma fold_try_start_state:
  "inv_dispatch env job images st \<Longrightarrow>
     inv_dispatch env job images (fold (\<lambda>_. try_start env job limit) xs st) \<and>
     finished (fold (\<lambda>_. try_start env job limit) xs st) = finished st"
proof (induction xs arbitrary: st)
  case Nil
  then show ?case by simp
next
  case (Cons x xs)
  have "inv_dispatch env job images (try_start env job limit st)"
    "finished (try_start env job limit st) = finished st"
    using Cons.prems by (simp_all add: try_start_def start_next_dispatch start_next_finished)
  with Cons.IH [of "try_start env job limit st"] show ?case by simp
qed

lemma par_final_finished:
  fixes env :: "('e, 'p) Env"
  shows "finished (par_final env job limit images order initialState) \<subseteq> set order"
proof -
  let ?init = "par_init images initialState :: ('e, 'p) ParState"
  have i: "inv_dispatch env job images ?init"
    using par_inv_init [of env job images] by (simp add: par_inv_def)
  have e: "finished ?init = {}"
    by (simp add: finished_def par_init_def initialState_def ParState.defs RunState.defs)
  from fold_try_start_state [OF i, of limit images] e
    fold_finish_finished [of env job images "fold (\<lambda>_. try_start env job limit) images ?init" order]
  show ?thesis by (simp add: par_final_def)
qed

lemma rejection_kept:
  "rejection st = Some e \<Longrightarrow> rejection (fold (finish_call env job) order st) = Some e"
proof (induction order arbitrary: st)
  case Nil
  then show ?case by simp
next
  case (Cons k order)
  have "rejection (finish_call env job k st) = Some e"
    using Cons.prems
    by (simp add: finish_call_def start_next_fields resume_def account_def
        split: option.splits sum.splits)
  from Cons.IH [OF this] show ?case by simp
qed

lemma par_first_failure:
  fixes env :: "('e, 'p) Env"
  assumes st0: "st0 = par_final env job limit images pre initialState"
    and none: "rejection st0 = None"
    and k: "k < length (calls st0)" "k \<notin> set pre"
    and bad: "getCompletion env (calls st0 ! k) = Inl e"
  shows "rejection (par_final env job limit images (pre @ k # post) initialState) = Some e"
proof -
  have inv: "inv_dispatch env job images st0"
    unfolding st0 using par_inv_final [of env job images limit pre] by (simp add: par_inv_def)
  have "k \<notin> finished st0"
    unfolding st0 using par_final_finished [of env job limit images pre] k(2) by auto
  with k(1) have "k \<in> fst ` set (active st0)"
    by (simp add: finished_def)
  then obtain args where a: "map_of (active st0) k = Some args"
    by (cases "map_of (active st0) k") (auto simp: map_of_eq_None_iff)
  from leave_finished(4) [OF inv a] bad have "getCompletion env args = Inl e" by simp
  with none a have "rejection (finish_call env job k st0) = Some e"
    by (simp add: finish_call_def start_next_fields resume_def)
  from rejection_kept [OF this, of env job post]
  show ?thesis
    by (simp add: par_final_def st0)
qed


text \<open>
  Claim C2, as amended. In the parallel mode, take a moment at which the run is still
  pending, the calls named in \<open>pre\<close> having finished, and let the outstanding call of
  unit \<open>k\<close> fail with \<open>e\<close> next. Then the run is rejected with \<open>e\<close>, whatever finishes
  afterwards (\<open>post\<close>) and however many units have succeeded before: the failure is
  rethrown by \<^verbatim>\<open>processPage\<close>, \<^verbatim>\<open>Promise.all\<close> rejects, and the filter of line 177
  is never reached. No output with the failed page left out is produced.
\<close>

theorem parallel_failure_rejects:
  assumes mode: "DocumindArgs.maintainFormat args \<noteq> Some True"
    and before: "documind (env\<lparr> completionOrder := pre \<rparr>) args = (w0, Pending)"
    and k: "k < length (adapterCalls w0)" "k \<notin> set pre"
    and bad: "getCompletion env (adapterCalls w0 ! k) = Inl e"
  shows "snd (documind (env\<lparr> completionOrder := pre @ k # post \<rparr>) args) = Rejected (Raised e)"
  using before
proof (cases rule: documind_reaches_process)
  case early
  then show ?thesis by simp
next
  case (processed llm ext localPath files st pr)
  let ?job = "job_of env args llm"
  let ?fin = "\<lambda>order. par_final env ?job (limit_of args) (pngs files) order initialState"
  have par: "\<not> job_maintainFormat ?job"
    using mode by (cases "DocumindArgs.maintainFormat args") (auto simp: job_of_def orDefault_def)
  have pr: "pr = Pending"
  proof (cases pr)
    case (Fulfilled u)
    with processed(10) have
      "finish (env\<lparr> completionOrder := pre \<rparr>) (orDefault True (cleanup args))
         (orDefault [] (outputDir args)) (pagesArg_of args)
         (tempDirectory_of (env\<lparr> completionOrder := pre \<rparr>) args) (fileName_of localPath)
         ((sortedWorld (env\<lparr> completionOrder := pre \<rparr>) args)\<lparr> adapterCalls := calls st \<rparr>) st =
       (w0, Pending)"
      by simp
    from finish_cases [OF this] show ?thesis by simp
  qed (use processed(10) in simp_all)
  with processed(10) have w0: "adapterCalls w0 = calls st" by simp
  from processed(9) pr process_parallel [OF par, where env = env and order = pre
      and limit = "limit_of args" and images = "pngs files"]
  have limit: "\<not> limit_of args < 1" and pend: "settled (?fin pre) = Pending"
    and st: "st = RunState.truncate (?fin pre)"
    by (auto simp: order_irrelevant split: if_splits promise.splits)
  from pend have none: "rejection (?fin pre) = None"
    by (auto simp: settled_def split: option.splits)
  have log: "calls (?fin pre) = adapterCalls w0"
    using st w0 by (simp add: RunState.truncate_def)
  from par_first_failure [OF refl none, where k = k and e = e and post = post] k bad log
  have "rejection (?fin (pre @ k # post)) = Some e" by simp
  then have "settled (?fin (pre @ k # post)) = Rejected e"
    by (simp add: settled_def)
  with limit process_parallel [OF par, where env = env and order = "pre @ k # post"
      and limit = "limit_of args" and images = "pngs files"]
  have "process (env\<lparr> completionOrder := pre @ k # post \<rparr>) ?job (limit_of args) (pngs files) =
          (RunState.truncate (?fin (pre @ k # post)), Rejected (Raised e))"
    by simp
  with processed(1-8) show ?thesis
    by (intro documind_processed_eq [where llm = llm and ext = ext and localPath = localPath
          and files = files])
      (simp_all add: order_irrelevant env_order_irrelevant)
qed


theorem parallel_failure_rejects_witness:
  "snd (documind ((exampleEnv fivePagesSecondBad [])\<lparr> completionOrder := [0, 2, 3, 4] @ 1 # [] \<rparr>)
          (exampleArgs False 10 None)) = Rejected (Raised 404)"
proof -
  let ?env = "exampleEnv fivePagesSecondBad [] :: (nat, unit) Env"
  let ?args = "exampleArgs False 10 None"
  let ?before = "documind (?env\<lparr> completionOrder := [0, 2, 3, 4] \<rparr>) ?args"
  have mode: "DocumindArgs.maintainFormat ?args \<noteq> Some True"
    by (simp add: exampleArgs_def)
  have "snd ?before = Pending \<and> 1 < length (adapterCalls (fst ?before)) \<and>
        getCompletion ?env (adapterCalls (fst ?before) ! 1) = Inl 404"
    by (simp add: model_defs example_defs replicate_numeral_Cons)
  then have before: "?before = (fst ?before, Pending)"
    and k: "1 < length (adapterCalls (fst ?before))"
    and bad: "getCompletion ?env (adapterCalls (fst ?before) ! 1) = Inl 404"
    by (simp_all add: prod_eq_iff)
  have fresh: "1 \<notin> set [0, 2, 3, 4 :: nat]" by simp
  from parallel_failure_rejects [OF mode before k fresh bad, of "[]"]
  show ?thesis .
qed

text \<open>
  The claim as stated fails: of five units the second fails and finishes last, after the
  other four have succeeded; the run is rejected with the error of the second unit and
  has no output.
\<close>

theorem parallel_partial_output_counterexample:
  "snd (documind (exampleEnv fivePagesSecondBad [0, 2, 3, 4, 1]) (exampleArgs False 10 None)) =
     Rejected (Raised 404) \<and>
   map (succeeds (exampleEnv fivePagesSecondBad [0, 2, 3, 4, 1]))
     (adapterCalls
        (fst (documind (exampleEnv fivePagesSecondBad [0, 2, 3, 4, 1]) (exampleArgs False 10 None)))) =
     [True, False, True, True, True]"
  by (simp add: model_defs example_defs succeeds_def replicate_numeral_Cons)

section \<open>A page list and a number of images that differ\<close>

lemma process_rejected:
  assumes "process env job limit images = (st, Rejected e)"
  shows "e = LimitTypeError \<and> limit < 1 \<or> (\<exists>x. e = Raised x)"
  using assms unfolding process_def processPagesInBatches_def
  by (auto simp: Let_def split: if_splits prod.splits option.splits promise.splits)

lemma finish_rejected:
  assumes "finish env cleanupFlag outDir pagesArg tempDirectory name w0 st = (w, Rejected e)"
  shows "\<exists>x. e = Raised x"
  using assms unfolding finish_def
  by (auto simp: Let_def split: option.splits if_splits)

text \<open>
  Claim C4, as amended. \<open>documind\<close> never compares the length of an explicit page list
  with the number of images. The only failures of its own making are the missing API key,
  the missing file path, the missing local path and the concurrency below one; any other
  rejection is a failure of a collaborator, passed on. A fulfilled run has called the
  adapter for every image, and its page \<open>i\<close> carries the \<open>i\<close>-th entry of the sorted
  list, or no page number where the list is too short; entries beyond the number of
  images are not used.
\<close>

theorem page_list_length_unchecked:
  assumes "documind env args = (w, res)"
    and "pagesToConvertAsImages args = Some (PageList xs)"
  shows "(\<forall>e. res = Rejected e \<longrightarrow>
            e = JsError (js ''Missing OpenAI API key'') \<and> orDefault [] (openaiAPIKey args) = [] \<or>
            e = JsError (js ''Missing file path'') \<and> filePath args = [] \<or>
            e = JsString (js ''Failed to save file to local drive'') \<or>
            e = LimitTypeError \<and> limit_of args < 1 \<or>
            (\<exists>x. e = Raised x)) \<and>
         (\<forall>out. res = Fulfilled out \<longrightarrow>
            (\<exists>files. readdir env (tempDirectory_of env args) = Inr files \<and>
               length (adapterCalls w) = length (pngs files) \<and>
               length (pages out) = length (pngs files) \<and>
               (\<forall>i<length (pngs files).
                  page (pages out ! i) = (if i < length xs then Some (sort xs ! i) else None))))"
proof (intro conjI allI impI)
  fix e assume rej: "res = Rejected e"
  from assms(1) rej show
    "e = JsError (js ''Missing OpenAI API key'') \<and> orDefault [] (openaiAPIKey args) = [] \<or>
     e = JsError (js ''Missing file path'') \<and> filePath args = [] \<or>
     e = JsString (js ''Failed to save file to local drive'') \<or>
     e = LimitTypeError \<and> limit_of args < 1 \<or>
     (\<exists>x. e = Raised x)"
    unfolding documind_def run_def
    by (auto simp: Let_def dest: process_rejected finish_rejected
        split: sum.splits option.splits if_splits prod.splits promise.splits)
next
  fix out assume "res = Fulfilled out"
  with assms(1) have "documind env args = (w, Fulfilled out)" by simp
  then show "\<exists>files. readdir env (tempDirectory_of env args) = Inr files \<and>
               length (adapterCalls w) = length (pngs files) \<and>
               length (pages out) = length (pngs files) \<and>
               (\<forall>i<length (pngs files).
                  page (pages out ! i) = (if i < length xs then Some (sort xs ! i) else None))"
  proof (cases rule: documind_Fulfilled_calls)
    case (1 llm files)
    have "pagesArg_of args = PageList (sort xs)"
      using assms(2) by (simp add: pagesArg_of_def orDefault_def sortPages_def)
    with 1(1,2,5) show ?thesis
      by (auto simp: formattedPages_length formattedPages_nth pageNumber_def)
  qed
qed

theorem page_list_length_unchecked_witness:
  "\<exists>w out. documind (exampleEnv threePages []) (exampleArgs True 10 (Some (PageList [5, 2]))) =
       (w, Fulfilled out) \<and>
     length (adapterCalls w) = 3 \<and>
     map page (pages out) = [Some 2, Some 5, None]"
proof -
  let ?env = "exampleEnv threePages [] :: (nat, unit) Env"
  let ?args = "exampleArgs True 10 (Some (PageList [5, 2]))"
  have "case snd (documind ?env ?args) of Fulfilled out \<Rightarrow> True | _ \<Rightarrow> False"
    by (simp add: model_defs example_defs)
  then obtain w out where r: "documind ?env ?args = (w, Fulfilled out)"
    by (rule example_fulfilled)
  have sel: "pagesToConvertAsImages ?args = Some (PageList [5, 2])"
    by (simp add: exampleArgs_def)
  from page_list_length_unchecked [OF r sel] obtain files where
    f: "readdir ?env (tempDirectory_of ?env ?args) = Inr files"
    and n: "length (adapterCalls w) = length (pngs files)" "length (pages out) = length (pngs files)"
    and p: "\<forall>i<length (pngs files).
              page (pages out ! i) = (if i < length [5, 2 :: int] then Some (sort [5, 2] ! i) else None)"
    by blast
  from f have "pngs files = [js ''1.png'', js ''2.png'', js ''3.png'']"
    by (auto simp: exampleEnv_def threePages_def pngs_def endsWith_def js_def)
  with n p have c: "length (adapterCalls w) = 3" and l: "length (pages out) = 3"
    and "page (pages out ! 0) = Some 2" "page (pages out ! 1) = Some 5" "page (pages out ! 2) = None"
    by simp_all
  then have m: "map page (pages out) = [Some 2, Some 5, None]"
    by (simp add: three_elements)
  show ?thesis
    by (intro exI [of _ w] exI [of _ out] conjI) (rule r c m)+
qed

text \<open>
  The claim as stated fails: with the list \<^verbatim>\<open>[2, 5]\<close> and three images the run is
  fulfilled, after three adapter calls, and the third page has no page number.
\<close>

theorem page_list_length_counterexample:
  "length (pngs threePages) = 3 \<and>
   map_option (map page \<circ> pages)
     (outputOf (snd (documind (exampleEnv threePages [])
        (exampleArgs True 10 (Some (PageList [2, 5])))))) = Some [Some 2, Some 5, None] \<and>
   length (adapterCalls (fst (documind (exampleEnv threePages [])
        (exampleArgs True 10 (Some (PageList [2, 5])))))) = 3"
  by (simp add: model_defs example_defs outputOf_def)


section \<open>Every run can settle\<close>

text \<open>While tasks wait in the queue of the limiter, some task is running.\<close>

lemma start_next_busy: "queue (start_next env job st) \<noteq> [] \<longrightarrow> active (start_next env job st) \<noteq> []"
  by (cases "queue st") (auto simp: start_next_def Let_def)

lemma finish_call_busy:
  "queue st \<noteq> [] \<longrightarrow> active st \<noteq> [] \<Longrightarrow>
     queue (finish_call env job k st) \<noteq> [] \<longrightarrow> active (finish_call env job k st) \<noteq> []"
  by (cases "map_of (active st) k") (simp_all add: finish_call_def start_next_busy)

lemma try_start_busy:
  "1 \<le> limit \<Longrightarrow>
     queue (try_start env job limit st) \<noteq> [] \<longrightarrow> active (try_start env job limit st) \<noteq> []"
  using start_next_busy [of env job st] by (auto simp: try_start_def)

lemma fold_try_start_busy:
  "1 \<le> limit \<Longrightarrow> queue st \<noteq> [] \<longrightarrow> active st \<noteq> [] \<Longrightarrow>
     queue (fold (\<lambda>_. try_start env job limit) xs st) \<noteq> [] \<longrightarrow>
     active (fold (\<lambda>_. try_start env job limit) xs st) \<noteq> []"
proof (induction xs arbitrary: st)
  case Nil
  then show ?case by simp
next
  case (Cons x xs)
  from Cons.IH [OF Cons.prems(1) try_start_busy [OF Cons.prems(1)]] show ?case by simp
qed

lemma fold_finish_busy:
  "queue st \<noteq> [] \<longrightarrow> active st \<noteq> [] \<Longrightarrow>
     queue (fold (finish_call env job) order st) \<noteq> [] \<longrightarrow>
     active (fold (finish_call env job) order st) \<noteq> []"
proof (induction order arbitrary: st)
  case Nil
  then show ?case by simp
next
  case (Cons k order)
  from Cons.IH [OF finish_call_busy [OF Cons.prems]] show ?case by simp
qed

lemma fold_finish_dispatch:
  "inv_dispatch env job images st \<Longrightarrow>
     inv_dispatch env job images (fold (finish_call env job) order st)"
  by (induction order arbitrary: st) (simp_all add: finish_call_dispatch)

lemma finish_call_finishes:
  assumes inv: "inv_dispatch env job images st"
  shows "finished st \<subseteq> finished (finish_call env job k st)"
    and "k \<in> fst ` set (active st) \<Longrightarrow> k \<in> finished (finish_call env job k st)"
proof -
  have eq: "finished (finish_call env job k st) = insert k (finished st)"
    if a: "map_of (active st) k = Some args" for args
  proof -
    let ?st1 = "st\<lparr> active := filter (\<lambda>t. fst t \<noteq> k) (active st) \<rparr>"
    have "finished (start_next env job (resume env k args ?st1)) = finished (resume env k args ?st1)"
      by (rule start_next_finished) (rule leave_dispatch [OF inv])
    then show ?thesis
      using a by (simp add: finish_call_def resume_fields leave_finished(1) [OF inv a])
  qed
  show "finished st \<subseteq> finished (finish_call env job k st)"
  proof (cases "map_of (active st) k")
    case None
    then show ?thesis by (simp add: finish_call_def)
  next
    case (Some args)
    from eq [OF this] show ?thesis by auto
  qed
  show "k \<in> finished (finish_call env job k st)" if "k \<in> fst ` set (active st)"
  proof -
    from that obtain args where "map_of (active st) k = Some args"
      by (cases "map_of (active st) k") (auto simp: map_of_eq_None_iff)
    from eq [OF this] show ?thesis by simp
  qed
qed

text \<open>
  When the calls of the units \<open>0\<close> to \<open>m - 1\<close> finish in this order, each of them is
  running or has finished when its turn comes.
\<close>

lemma finish_in_order:
  assumes inv: "inv_dispatch env job images st"
    and busy: "queue st \<noteq> [] \<longrightarrow> active st \<noteq> []"
    and m: "m \<le> length images"
  shows "{0..<m} \<subseteq> finished (fold (finish_call env job) [0..<m] st)"
  using m
proof (induction m)
  case 0
  show ?case by simp
next
  case (Suc m)
  let ?t = "fold (finish_call env job) [0..<m] st"
  from Suc have below: "{0..<m} \<subseteq> finished ?t" and m: "m < length images" by simp_all
  have t: "inv_dispatch env job images ?t"
    by (rule fold_finish_dispatch [OF inv])
  have tb: "queue ?t \<noteq> [] \<longrightarrow> active ?t \<noteq> []"
    by (rule fold_finish_busy [OF busy])
  have step: "fold (finish_call env job) [0..<Suc m] st = finish_call env job m ?t"
    by simp
  have "m \<in> finished (finish_call env job m ?t)"
  proof (cases "m \<in> finished ?t")
    case True
    with finish_call_finishes(1) [OF t, of m] show ?thesis by auto
  next
    case False
    have "m < length (calls ?t)"
    proof (rule ccontr)
      assume "\<not> m < length (calls ?t)"
      then have d: "length (calls ?t) \<le> m" by simp
      with m t have "queue ?t \<noteq> []"
        by (simp add: inv_dispatch_def)
      with tb obtain a where a: "a \<in> set (active ?t)"
        by (cases "active ?t") auto
      with t have "fst a < length (calls ?t)"
        by (simp add: inv_dispatch_def)
      with d below have "fst a \<in> finished ?t" by auto
      with a show False by (auto simp: finished_def)
    qed
    with False have "m \<in> fst ` set (active ?t)"
      by (simp add: finished_def)
    then show ?thesis by (rule finish_call_finishes(2) [OF t])
  qed
  moreover have "{0..<m} \<subseteq> finished (finish_call env job m ?t)"
    using below finish_call_finishes(1) [OF t, of m] by blast
  ultimately show ?case
    unfolding step by (auto simp: less_Suc_eq)
qed

lemma par_settles:
  fixes env :: "('e, 'p) Env"
  assumes "1 \<le> limit"
  shows "settled (par_final env job limit images (order @ [0..<length images]) initialState) \<noteq> Pending"
proof -
  let ?init = "par_init images initialState :: ('e, 'p) ParState"
  let ?s = "fold (finish_call env job) order (fold (\<lambda>_. try_start env job limit) images ?init)"
  let ?t = "fold (finish_call env job) [0..<length images] ?s"
  have i: "inv_dispatch env job images ?init"
    using par_inv_init [of env job images] by (simp add: par_inv_def)
  have "queue ?init \<noteq> [] \<longrightarrow> active ?init \<noteq> []" if "images = []"
    using that by (simp add: par_init_def initialState_def ParState.defs RunState.defs)
  have b0: "queue (fold (\<lambda>_. try_start env job limit) images ?init) \<noteq> [] \<longrightarrow>
            active (fold (\<lambda>_. try_start env job limit) images ?init) \<noteq> []"
  proof (cases images)
    case Nil
    then show ?thesis
      by (simp add: par_init_def initialState_def ParState.defs RunState.defs)
  next
    case (Cons img rest)
    have "queue (fold (\<lambda>_. try_start env job limit) rest (try_start env job limit ?init)) \<noteq> [] \<longrightarrow>
          active (fold (\<lambda>_. try_start env job limit) rest (try_start env job limit ?init)) \<noteq> []"
      by (rule fold_try_start_busy [OF assms try_start_busy [OF assms]])
    then show ?thesis
      unfolding Cons [symmetric] by (subst (1 2) Cons) simp
  qed
  have si: "inv_dispatch env job images ?s"
    using fold_try_start_state [OF i, of limit images] by (simp add: fold_finish_dispatch)
  have sb: "queue ?s \<noteq> [] \<longrightarrow> active ?s \<noteq> []"
    by (rule fold_finish_busy [OF b0])
  have all: "{0..<length images} \<subseteq> finished ?t"
    by (rule finish_in_order [OF si sb]) simp
  have ti: "inv_dispatch env job images ?t"
    by (rule fold_finish_dispatch [OF si])
  have len: "length (calls ?t) = length images"
  proof (cases "length images")
    case 0
    with ti show ?thesis by (simp add: inv_dispatch_def)
  next
    case (Suc n)
    with all have "n \<in> finished ?t" by auto
    then have "n < length (calls ?t)" by (simp add: finished_def)
    with ti Suc show ?thesis by (simp add: inv_dispatch_def)
  qed
  have "active ?t = []"
  proof (cases "active ?t")
    case Nil
    then show ?thesis .
  next
    case (Cons a as)
    with ti have "fst a < length (calls ?t)" by (simp add: inv_dispatch_def)
    with len all have "fst a \<in> finished ?t" by auto
    with Cons show ?thesis by (auto simp: finished_def)
  qed
  moreover from ti len have "queue ?t = []"
    by (simp add: inv_dispatch_def)
  moreover have "par_final env job limit images (order @ [0..<length images]) initialState = ?t"
    by (simp add: par_final_def)
  ultimately show ?thesis
    by (simp add: settled_def split: option.splits)
qed


text \<open>
  Whatever has finished so far, the run settles once the remaining calls finish, for
  instance in the order of their indices.
\<close>

lemma documind_settles:
  assumes "readdir env (tempDirectory_of env args) = Inr files"
  shows "snd (documind (env\<lparr> completionOrder := order @ [0..<length (pngs files)] \<rparr>) args) \<noteq> Pending"
proof -
  let ?env = "env\<lparr> completionOrder := order @ [0..<length (pngs files)] \<rparr>"
  obtain w res where run: "documind ?env args = (w, res)"
    by (cases "documind ?env args")
  from run have "res \<noteq> Pending"
  proof (cases rule: documind_reaches_process)
    case early
    then show ?thesis by auto
  next
    case (processed llm ext localPath files' st pr)
    from processed(8) assms have files: "files' = files"
      by (simp add: env_order_irrelevant)
    let ?job = "job_of env args llm"
    have p: "process ?env ?job (limit_of args) (pngs files) = (st, pr)"
      using processed(9) files by (simp add: order_irrelevant)
    have pr: "pr \<noteq> Pending"
    proof (cases "job_maintainFormat ?job")
      case True
      from process_sequential [OF True, of ?env "limit_of args" "pngs files"] p show ?thesis
        by (auto split: option.splits)
    next
      case False
      show ?thesis
      proof (cases "limit_of args < 1")
        case True
        with p process_parallel [OF False, where env = env
            and order = "order @ [0..<length (pngs files)]" and limit = "limit_of args"
            and images = "pngs files"]
        show ?thesis by auto
      next
        case large: False
        then have "1 \<le> limit_of args" by simp
        from par_settles [OF this, of env ?job "pngs files" order]
          p process_parallel [OF False, where env = env
            and order = "order @ [0..<length (pngs files)]" and limit = "limit_of args"
            and images = "pngs files"] large
        show ?thesis by (auto split: promise.splits)
      qed
    qed
    show ?thesis
    proof (cases pr)
      case Pending
      with pr show ?thesis by simp
    next
      case (Rejected e)
      with processed(10) show ?thesis by simp
    next
      case (Fulfilled u)
      with processed(10) have
        "finish ?env (orDefault True (cleanup args)) (orDefault [] (outputDir args))
           (pagesArg_of args) (tempDirectory_of ?env args) (fileName_of localPath)
           ((sortedWorld ?env args)\<lparr> adapterCalls := calls st \<rparr>) st = (w, res)"
        by simp
      from finish_cases [OF this] show ?thesis by simp
    qed
  qed
  with run show ?thesis by simp
qed


end
